theory Spec2Isabelle
  imports Main "HOL-Library.Word" "HOL-Library.Char_ord" "HOL-Library.List_Lexorder"
    "HOL-Library.Multiset"
begin

section \<open>The data model of \<^verbatim>\<open>internal/data/common.go\<close>\<close>

text \<open>
  The Go file wraps pointers to records of the protocol package \<^verbatim>\<open>otlpcommon\<close> in small
  structs that are passed by value. A pointer is modelled as an optional address
  (\<open>None\<close> is Go's \<^verbatim>\<open>nil\<close>), the heap as one arena (a list) per record type, where an
  address is an index, and every function that reads or writes through a pointer takes
  the store and returns either a panic or its result (with the new store when it writes).
  Go strings are byte strings (\<open>string\<close>), \<^verbatim>\<open>int64\<close> is a 64-bit word, and a
  \<^verbatim>\<open>float64\<close> is carried as its 64-bit pattern: the file only stores and loads it.
\<close>

type_synonym int64 = "64 word"
type_synonym float64 = "64 word"
type_synonym go_int = "64 word"  \<comment> \<open>Go's \<^verbatim>\<open>int\<close> on a 64-bit platform, read by \<open>sint\<close>\<close>
type_synonym ptr = "nat option"

datatype panic =
    NilPointerDereference
  | IndexOutOfRange
  | MakeSliceLenOutOfRange
  | InvalidAddress  \<comment> \<open>an address outside its arena; no Go pointer is like this\<close>

subsection \<open>Records of package otlpcommon\<close>

text \<open>
  Modelled from the spec: the record types of the external package \<^verbatim>\<open>otlpcommon\<close>, which
  is imported by the file and not part of it. Section 6 of the specification gives the
  value record the fields discriminant, string, integer, double and boolean payload, and
  the key-value record the fields key and value; the names are those the Go file uses.
  The enumeration lists the four discriminants the file names.
\<close>

datatype ValueType =
    AttributeKeyValue_STRING
  | AttributeKeyValue_INT
  | AttributeKeyValue_DOUBLE
  | AttributeKeyValue_BOOL

record otlp_AttributeKeyValue =
  otlp_Type :: ValueType
  otlp_StringValue :: string
  otlp_IntValue :: int64
  otlp_DoubleValue :: float64
  otlp_BoolValue :: bool

record otlp_StringKeyValue =
  otlp_Key :: string
  otlp_Value :: string

record otlp_InstrumentationLibrary =
  otlp_Name :: string
  otlp_Version :: string

text \<open>
  Modelled from the spec: Go's zero value of the value record, as \<^verbatim>\<open>make\<close> fills a new
  array with it. The discriminant numbered zero is declared in \<^verbatim>\<open>otlpcommon\<close>; it is taken
  to be the first one, as in a proto3 enumeration.
\<close>

definition zero_AttributeKeyValue :: otlp_AttributeKeyValue where
  "zero_AttributeKeyValue =
     \<lparr>otlp_Type = AttributeKeyValue_STRING, otlp_StringValue = [], otlp_IntValue = 0,
      otlp_DoubleValue = 0, otlp_BoolValue = False\<rparr>"

definition zero_StringKeyValue :: otlp_StringKeyValue where
  "zero_StringKeyValue = \<lparr>otlp_Key = [], otlp_Value = []\<rparr>"

subsection \<open>The store\<close>

record store =
  akvs :: "otlp_AttributeKeyValue list"
  skvs :: "otlp_StringKeyValue list"
  slices :: "ptr list list"  \<comment> \<open>variables of type \<^verbatim>\<open>[]*otlpcommon.StringKeyValue\<close>\<close>
  ils :: "otlp_InstrumentationLibrary list"

definition empty_store :: store where
  "empty_store = \<lparr>akvs = [], skvs = [], slices = [], ils = []\<rparr>"

text \<open>Reading through a pointer, and writing one field through a pointer.\<close>

definition load :: "'a list \<Rightarrow> ptr \<Rightarrow> panic + 'a" where
  "load h p =
     (case p of
        None \<Rightarrow> Inl NilPointerDereference
      | Some a \<Rightarrow> if a < length h then Inr (h ! a) else Inl InvalidAddress)"

definition modify :: "('a \<Rightarrow> 'a) \<Rightarrow> ptr \<Rightarrow> 'a list \<Rightarrow> panic + 'a list" where
  "modify f p h =
     (case p of
        None \<Rightarrow> Inl NilPointerDereference
      | Some a \<Rightarrow> if a < length h then Inr (h[a := f (h ! a)]) else Inl InvalidAddress)"

text \<open>A pointer is valid in an arena when it is not nil and addresses one of its records.\<close>

definition valid_ptr :: "'a list \<Rightarrow> ptr \<Rightarrow> bool" where
  "valid_ptr h p = (case p of None \<Rightarrow> False | Some y \<Rightarrow> y < length h)"

subsection \<open>AttributeValue\<close>

datatype AttributeValueType =
    AttributeValueSTRING
  | AttributeValueINT
  | AttributeValueDOUBLE
  | AttributeValueBOOL

text \<open>
  The conversion \<^verbatim>\<open>AttributeValueType(t)\<close>: the four constants are declared as the
  conversions of the four discriminants.
\<close>

fun AttributeValueType_of :: "ValueType \<Rightarrow> AttributeValueType" where
  "AttributeValueType_of AttributeKeyValue_STRING = AttributeValueSTRING"
| "AttributeValueType_of AttributeKeyValue_INT = AttributeValueINT"
| "AttributeValueType_of AttributeKeyValue_DOUBLE = AttributeValueDOUBLE"
| "AttributeValueType_of AttributeKeyValue_BOOL = AttributeValueBOOL"

record AttributeValue =
  orig :: ptr

definition NewAttributeValueString :: "string \<Rightarrow> store \<Rightarrow> AttributeValue \<times> store" where
  "NewAttributeValueString v st =
     (\<lparr>AttributeValue.orig = Some (length (akvs st))\<rparr>,
      st\<lparr>akvs := akvs st @
        [zero_AttributeKeyValue\<lparr>otlp_Type := AttributeKeyValue_STRING, otlp_StringValue := v\<rparr>]\<rparr>)"

definition NewAttributeValueInt :: "int64 \<Rightarrow> store \<Rightarrow> AttributeValue \<times> store" where
  "NewAttributeValueInt v st =
     (\<lparr>AttributeValue.orig = Some (length (akvs st))\<rparr>,
      st\<lparr>akvs := akvs st @
        [zero_AttributeKeyValue\<lparr>otlp_Type := AttributeKeyValue_INT, otlp_IntValue := v\<rparr>]\<rparr>)"

definition NewAttributeValueDouble :: "float64 \<Rightarrow> store \<Rightarrow> AttributeValue \<times> store" where
  "NewAttributeValueDouble v st =
     (\<lparr>AttributeValue.orig = Some (length (akvs st))\<rparr>,
      st\<lparr>akvs := akvs st @
        [zero_AttributeKeyValue\<lparr>otlp_Type := AttributeKeyValue_DOUBLE, otlp_DoubleValue := v\<rparr>]\<rparr>)"

definition NewAttributeValueBool :: "bool \<Rightarrow> store \<Rightarrow> AttributeValue \<times> store" where
  "NewAttributeValueBool v st =
     (\<lparr>AttributeValue.orig = Some (length (akvs st))\<rparr>,
      st\<lparr>akvs := akvs st @
        [zero_AttributeKeyValue\<lparr>otlp_Type := AttributeKeyValue_BOOL, otlp_BoolValue := v\<rparr>]\<rparr>)"

text \<open>
  \<^verbatim>\<open>NewAttributeValueSlice\<close>: \<^verbatim>\<open>origs\<close> is a new array of \<open>len\<close> zero records at the end of the
  arena, \<^verbatim>\<open>wrappers\<close> a new slice of \<open>len\<close> zero handles, and the loop points the handle at
  index \<open>i\<close> to \<^verbatim>\<open>&origs[i]\<close>.

  \<^verbatim>\<open>make\<close> panics (len out of range) on a negative length and on a length whose array the
  runtime does not allocate. \<open>limit\<close>, a parameter, is the largest number of value records
  that \<^verbatim>\<open>make\<close> allocates: the runtime's allocation limit divided by the size of a record,
  both fixed by the Go runtime and the protocol package, not by this file. No Go runtime
  allocates more than \<open>2 ^ 48\<close> bytes at once and a record takes at least one, so a length
  above \<open>2 ^ 48\<close> panics whatever the parameter. A handle is one pointer, no larger than a
  record, so the second \<^verbatim>\<open>make\<close> succeeds when the first does.
\<close>

definition make_limit :: "nat \<Rightarrow> nat" where
  "make_limit limit = min limit (2 ^ 48)"

definition NewAttributeValueSlice ::
  "nat \<Rightarrow> go_int \<Rightarrow> store \<Rightarrow> panic + (AttributeValue list \<times> store)" where
  "NewAttributeValueSlice limit len st =
     (if sint len < 0 \<or> int (make_limit limit) < sint len then Inl MakeSliceLenOutOfRange
      else
        let n = nat (sint len);
            base = length (akvs st);
            st' = st\<lparr>akvs := akvs st @ replicate n zero_AttributeKeyValue\<rparr>;
            wrappers = replicate n \<lparr>AttributeValue.orig = None\<rparr>
        in Inr (foldl (\<lambda>w i. w[i := (w ! i)\<lparr>AttributeValue.orig := Some (base + i)\<rparr>])
                  wrappers [0..<n], st'))"

definition Type :: "AttributeValue \<Rightarrow> store \<Rightarrow> panic + AttributeValueType" where
  "Type a st =
     (case load (akvs st) (AttributeValue.orig a) of
        Inl e \<Rightarrow> Inl e
      | Inr r \<Rightarrow> Inr (AttributeValueType_of (otlp_Type r)))"

definition StringVal :: "AttributeValue \<Rightarrow> store \<Rightarrow> panic + string" where
  "StringVal a st =
     (case load (akvs st) (AttributeValue.orig a) of
        Inl e \<Rightarrow> Inl e
      | Inr r \<Rightarrow> Inr (otlp_StringValue r))"

definition IntVal :: "AttributeValue \<Rightarrow> store \<Rightarrow> panic + int64" where
  "IntVal a st =
     (case load (akvs st) (AttributeValue.orig a) of
        Inl e \<Rightarrow> Inl e
      | Inr r \<Rightarrow> Inr (otlp_IntValue r))"

definition DoubleVal :: "AttributeValue \<Rightarrow> store \<Rightarrow> panic + float64" where
  "DoubleVal a st =
     (case load (akvs st) (AttributeValue.orig a) of
        Inl e \<Rightarrow> Inl e
      | Inr r \<Rightarrow> Inr (otlp_DoubleValue r))"

definition BoolVal :: "AttributeValue \<Rightarrow> store \<Rightarrow> panic + bool" where
  "BoolVal a st =
     (case load (akvs st) (AttributeValue.orig a) of
        Inl e \<Rightarrow> Inl e
      | Inr r \<Rightarrow> Inr (otlp_BoolValue r))"

text \<open>Each setter is two assignments through the pointer, the discriminant first.\<close>

definition SetString :: "AttributeValue \<Rightarrow> string \<Rightarrow> store \<Rightarrow> panic + store" where
  "SetString a v st =
     (case modify (\<lambda>r. r\<lparr>otlp_Type := AttributeKeyValue_STRING\<rparr>) (AttributeValue.orig a) (akvs st) of
        Inl e \<Rightarrow> Inl e
      | Inr h1 \<Rightarrow>
          (case modify (\<lambda>r. r\<lparr>otlp_StringValue := v\<rparr>) (AttributeValue.orig a) h1 of
             Inl e \<Rightarrow> Inl e
           | Inr h2 \<Rightarrow> Inr (st\<lparr>akvs := h2\<rparr>)))"

definition SetInt :: "AttributeValue \<Rightarrow> int64 \<Rightarrow> store \<Rightarrow> panic + store" where
  "SetInt a v st =
     (case modify (\<lambda>r. r\<lparr>otlp_Type := AttributeKeyValue_INT\<rparr>) (AttributeValue.orig a) (akvs st) of
        Inl e \<Rightarrow> Inl e
      | Inr h1 \<Rightarrow>
          (case modify (\<lambda>r. r\<lparr>otlp_IntValue := v\<rparr>) (AttributeValue.orig a) h1 of
             Inl e \<Rightarrow> Inl e
           | Inr h2 \<Rightarrow> Inr (st\<lparr>akvs := h2\<rparr>)))"

definition SetDouble :: "AttributeValue \<Rightarrow> float64 \<Rightarrow> store \<Rightarrow> panic + store" where
  "SetDouble a v st =
     (case modify (\<lambda>r. r\<lparr>otlp_Type := AttributeKeyValue_DOUBLE\<rparr>) (AttributeValue.orig a) (akvs st) of
        Inl e \<Rightarrow> Inl e
      | Inr h1 \<Rightarrow>
          (case modify (\<lambda>r. r\<lparr>otlp_DoubleValue := v\<rparr>) (AttributeValue.orig a) h1 of
             Inl e \<Rightarrow> Inl e
           | Inr h2 \<Rightarrow> Inr (st\<lparr>akvs := h2\<rparr>)))"

definition SetBool :: "AttributeValue \<Rightarrow> bool \<Rightarrow> store \<Rightarrow> panic + store" where
  "SetBool a v st =
     (case modify (\<lambda>r. r\<lparr>otlp_Type := AttributeKeyValue_BOOL\<rparr>) (AttributeValue.orig a) (akvs st) of
        Inl e \<Rightarrow> Inl e
      | Inr h1 \<Rightarrow>
          (case modify (\<lambda>r. r\<lparr>otlp_BoolValue := v\<rparr>) (AttributeValue.orig a) h1 of
             Inl e \<Rightarrow> Inl e
           | Inr h2 \<Rightarrow> Inr (st\<lparr>akvs := h2\<rparr>)))"

text \<open>
  A handle is valid when it points to a slot of the arena: that is what the
  \<^verbatim>\<open>NewAttributeValue*\<close> functions return, and what the zero-initialised handle is not.
\<close>

definition valid_AttributeValue :: "store \<Rightarrow> AttributeValue \<Rightarrow> bool" where
  "valid_AttributeValue st a = valid_ptr (akvs st) (AttributeValue.orig a)"

text \<open>The slot a valid handle points to, and all that the methods tell about a handle.\<close>

definition slot :: "store \<Rightarrow> AttributeValue \<Rightarrow> otlp_AttributeKeyValue" where
  "slot st a = akvs st ! the (AttributeValue.orig a)"

definition observe ::
  "AttributeValue \<Rightarrow> store \<Rightarrow>
     (panic + AttributeValueType) \<times> (panic + string) \<times> (panic + int64) \<times>
     (panic + float64) \<times> (panic + bool)" where
  "observe a st = (Type a st, StringVal a st, IntVal a st, DoubleVal a st, BoolVal a st)"

subsection \<open>StringKeyValue\<close>

record StringKeyValue =
  orig :: ptr

definition NewStringKeyValue :: "string \<Rightarrow> string \<Rightarrow> store \<Rightarrow> StringKeyValue \<times> store" where
  "NewStringKeyValue k v st =
     (\<lparr>StringKeyValue.orig = Some (length (skvs st))\<rparr>,
      st\<lparr>skvs := skvs st @ [\<lparr>otlp_Key = k, otlp_Value = v\<rparr>]\<rparr>)"

definition Key :: "StringKeyValue \<Rightarrow> store \<Rightarrow> panic + string" where
  "Key akv st =
     (case load (skvs st) (StringKeyValue.orig akv) of
        Inl e \<Rightarrow> Inl e
      | Inr r \<Rightarrow> Inr (otlp_Key r))"

definition Value :: "StringKeyValue \<Rightarrow> store \<Rightarrow> panic + string" where
  "Value akv st =
     (case load (skvs st) (StringKeyValue.orig akv) of
        Inl e \<Rightarrow> Inl e
      | Inr r \<Rightarrow> Inr (otlp_Value r))"

definition SetValue :: "StringKeyValue \<Rightarrow> string \<Rightarrow> store \<Rightarrow> panic + store" where
  "SetValue akv v st =
     (case modify (\<lambda>r. r\<lparr>otlp_Value := v\<rparr>) (StringKeyValue.orig akv) (skvs st) of
        Inl e \<Rightarrow> Inl e
      | Inr h \<Rightarrow> Inr (st\<lparr>skvs := h\<rparr>))"

subsection \<open>StringMap\<close>

text \<open>
  \<open>orig\<close> points to a slice variable, which holds pointers to key-value records. The
  slice variable is modelled by the elements within its length: the methods never read
  the backing array beyond it.
\<close>

record StringMap =
  orig :: ptr

definition newStringMap :: "ptr \<Rightarrow> StringMap" where
  "newStringMap p = \<lparr>StringMap.orig = p\<rparr>"

text \<open>
  \<^verbatim>\<open>NewStringMap\<close>: the Go map is given as the list of its entries in the order in which
  \<^verbatim>\<open>range\<close> visits them (any order; the keys of a Go map are distinct). \<open>base\<close> is the address
  of \<^verbatim>\<open>origs[0]\<close>.
\<close>

fun NewStringMap_loop ::
  "nat \<Rightarrow> (string \<times> string) list \<Rightarrow> nat \<Rightarrow> ptr list \<Rightarrow> store \<Rightarrow> panic + (ptr list \<times> store)" where
  "NewStringMap_loop base [] ix wrappers st = Inr (wrappers, st)"
| "NewStringMap_loop base ((k, v) # rest) ix wrappers st =
     (if length wrappers \<le> ix then Inl IndexOutOfRange
      else
        let wrappers1 = wrappers[ix := Some (base + ix)] in
        (case modify (\<lambda>r. r\<lparr>otlp_Key := k\<rparr>) (wrappers1 ! ix) (skvs st) of
           Inl e \<Rightarrow> Inl e
         | Inr h1 \<Rightarrow>
             (case modify (\<lambda>r. r\<lparr>otlp_Value := v\<rparr>) (wrappers1 ! ix) h1 of
                Inl e \<Rightarrow> Inl e
              | Inr h2 \<Rightarrow> NewStringMap_loop base rest (ix + 1) wrappers1 (st\<lparr>skvs := h2\<rparr>))))"

definition NewStringMap :: "(string \<times> string) list \<Rightarrow> store \<Rightarrow> panic + (StringMap \<times> store)" where
  "NewStringMap attrMap st =
     (if length attrMap = 0
      then Inr (\<lparr>StringMap.orig = Some (length (slices st))\<rparr>, st\<lparr>slices := slices st @ [[]]\<rparr>)
      else
        let n = length attrMap;
            base = length (skvs st);
            st1 = st\<lparr>skvs := skvs st @ replicate n zero_StringKeyValue\<rparr>
        in (case NewStringMap_loop base attrMap 0 (replicate n None) st1 of
              Inl e \<Rightarrow> Inl e
            | Inr (wrappers, st2) \<Rightarrow>
                Inr (\<lparr>StringMap.orig = Some (length (slices st2))\<rparr>,
                     st2\<lparr>slices := slices st2 @ [wrappers]\<rparr>)))"

fun Get_loop :: "otlp_StringKeyValue list \<Rightarrow> ptr list \<Rightarrow> string \<Rightarrow> panic + (StringKeyValue \<times> bool)" where
  "Get_loop h [] k = Inr (\<lparr>StringKeyValue.orig = None\<rparr>, False)"
| "Get_loop h (a # rest) k =
     (case load h a of
        Inl e \<Rightarrow> Inl e
      | Inr r \<Rightarrow>
          if otlp_Key r = k then Inr (\<lparr>StringKeyValue.orig = a\<rparr>, True)
          else Get_loop h rest k)"

definition Get :: "StringMap \<Rightarrow> string \<Rightarrow> store \<Rightarrow> panic + (StringKeyValue \<times> bool)" where
  "Get sm k st =
     (case load (slices st) (StringMap.orig sm) of
        Inl e \<Rightarrow> Inl e
      | Inr s \<Rightarrow> Get_loop (skvs st) s k)"

text \<open>
  \<^verbatim>\<open>Delete\<close>: the loop runs over the slice as it was on entry, \<open>i\<close> counting the elements
  passed; at the first match it stores the last element at index \<open>i\<close>, cuts the slice by
  one and returns.
\<close>

fun Delete_loop :: "store \<Rightarrow> StringMap \<Rightarrow> nat \<Rightarrow> ptr list \<Rightarrow> string \<Rightarrow> panic + (bool \<times> store)" where
  "Delete_loop st sm i [] k = Inr (False, st)"
| "Delete_loop st sm i (a # rest) k =
     (case load (skvs st) a of
        Inl e \<Rightarrow> Inl e
      | Inr r \<Rightarrow>
          if otlp_Key r = k then
            (case load (slices st) (StringMap.orig sm) of
               Inl e \<Rightarrow> Inl e
             | Inr s \<Rightarrow>
                 if length s = 0 \<or> length s \<le> i then Inl IndexOutOfRange
                 else
                   (case modify (\<lambda>s. take (length s - 1) (s[i := s ! (length s - 1)]))
                           (StringMap.orig sm) (slices st) of
                      Inl e \<Rightarrow> Inl e
                    | Inr h \<Rightarrow> Inr (True, st\<lparr>slices := h\<rparr>)))
          else Delete_loop st sm (i + 1) rest k)"

definition Delete :: "StringMap \<Rightarrow> string \<Rightarrow> store \<Rightarrow> panic + (bool \<times> store)" where
  "Delete sm k st =
     (case load (slices st) (StringMap.orig sm) of
        Inl e \<Rightarrow> Inl e
      | Inr s \<Rightarrow> Delete_loop st sm 0 s k)"

text \<open>The statement \<^verbatim>\<open>*sm.orig = append(*sm.orig, NewStringKeyValue(k, v).orig)\<close>.\<close>

definition append_new :: "StringMap \<Rightarrow> string \<Rightarrow> string \<Rightarrow> store \<Rightarrow> panic + store" where
  "append_new sm k v st =
     (case load (slices st) (StringMap.orig sm) of
        Inl e \<Rightarrow> Inl e
      | Inr s \<Rightarrow>
          (case NewStringKeyValue k v st of
             (kv, st1) \<Rightarrow>
               (case modify (\<lambda>_. s @ [StringKeyValue.orig kv]) (StringMap.orig sm) (slices st1) of
                  Inl e \<Rightarrow> Inl e
                | Inr h \<Rightarrow> Inr (st1\<lparr>slices := h\<rparr>))))"

definition Insert :: "StringMap \<Rightarrow> string \<Rightarrow> string \<Rightarrow> store \<Rightarrow> panic + store" where
  "Insert sm k v st =
     (case Get sm k st of
        Inl e \<Rightarrow> Inl e
      | Inr (_, existing) \<Rightarrow> if \<not> existing then append_new sm k v st else Inr st)"

definition Update :: "StringMap \<Rightarrow> string \<Rightarrow> string \<Rightarrow> store \<Rightarrow> panic + store" where
  "Update sm k v st =
     (case Get sm k st of
        Inl e \<Rightarrow> Inl e
      | Inr (av, existing) \<Rightarrow> if existing then SetValue av v st else Inr st)"

definition Upsert :: "StringMap \<Rightarrow> string \<Rightarrow> string \<Rightarrow> store \<Rightarrow> panic + store" where
  "Upsert sm k v st =
     (case Get sm k st of
        Inl e \<Rightarrow> Inl e
      | Inr (av, existing) \<Rightarrow> if existing then SetValue av v st else append_new sm k v st)"

definition Len :: "StringMap \<Rightarrow> store \<Rightarrow> panic + nat" where
  "Len sm st =
     (case load (slices st) (StringMap.orig sm) of
        Inl e \<Rightarrow> Inl e
      | Inr s \<Rightarrow> Inr (length s))"

definition GetStringKeyValue :: "StringMap \<Rightarrow> go_int \<Rightarrow> store \<Rightarrow> panic + StringKeyValue" where
  "GetStringKeyValue sm ix st =
     (case load (slices st) (StringMap.orig sm) of
        Inl e \<Rightarrow> Inl e
      | Inr s \<Rightarrow>
          if sint ix < 0 \<or> int (length s) \<le> sint ix then Inl IndexOutOfRange
          else Inr \<lparr>StringKeyValue.orig = s ! nat (sint ix)\<rparr>)"

text \<open>
  Modelled from the spec: \<^verbatim>\<open>sort.SliceStable\<close> of Go's standard library, which \<^verbatim>\<open>Sort\<close>
  calls and the file does not contain. The specification has \<^verbatim>\<open>sort()\<close> sort the sequence
  stably by key ascending, in place. A stable sort leaves no choice of its result (lemma
  \<open>stable_sort_unique\<close>), so the stable insertion sort \<open>sort_key\<close> stands for the library's
  algorithm, under the bytewise lexicographic order of strings, which is Go's \<^verbatim>\<open><\<close> on
  strings. The comparison function of \<^verbatim>\<open>Sort\<close> reads the key every element points to:
  \<open>load_all\<close> is that reading, and a slice of fewer than two elements is not compared at
  all.
\<close>

fun load_all :: "'a list \<Rightarrow> ptr list \<Rightarrow> panic + 'a list" where
  "load_all h [] = Inr []"
| "load_all h (a # rest) =
     (case load h a of
        Inl e \<Rightarrow> Inl e
      | Inr r \<Rightarrow> (case load_all h rest of Inl e \<Rightarrow> Inl e | Inr rs \<Rightarrow> Inr (r # rs)))"

definition Sort :: "StringMap \<Rightarrow> store \<Rightarrow> panic + (StringMap \<times> store)" where
  "Sort sm st =
     (case load (slices st) (StringMap.orig sm) of
        Inl e \<Rightarrow> Inl e
      | Inr s \<Rightarrow>
          if length s < 2 then Inr (sm, st)
          else
            (case load_all (skvs st) s of
               Inl e \<Rightarrow> Inl e
             | Inr rs \<Rightarrow>
                 (case modify (\<lambda>_. map fst (sort_key (\<lambda>(a, r). otlp_Key r) (zip s rs)))
                         (StringMap.orig sm) (slices st) of
                    Inl e \<Rightarrow> Inl e
                  | Inr h \<Rightarrow> Inr (sm, st\<lparr>slices := h\<rparr>))))"

text \<open>
  A map is valid when it points to a slice variable whose elements point to records of
  the arena, each element to a record of its own. \<open>entries\<close> is the sequence of pairs a
  valid map holds, \<open>keys\<close> the sequence of their keys.
\<close>

definition valid_StringMap :: "store \<Rightarrow> StringMap \<Rightarrow> bool" where
  "valid_StringMap st sm =
     (case StringMap.orig sm of
        None \<Rightarrow> False
      | Some x \<Rightarrow>
          x < length (slices st) \<and> list_all (valid_ptr (skvs st)) (slices st ! x) \<and>
          distinct (slices st ! x))"

definition elems :: "store \<Rightarrow> StringMap \<Rightarrow> ptr list" where
  "elems st sm = slices st ! the (StringMap.orig sm)"

definition pair_at :: "otlp_StringKeyValue list \<Rightarrow> ptr \<Rightarrow> string \<times> string" where
  "pair_at h p = (otlp_Key (h ! the p), otlp_Value (h ! the p))"

definition entries :: "store \<Rightarrow> StringMap \<Rightarrow> (string \<times> string) list" where
  "entries st sm = map (pair_at (skvs st)) (elems st sm)"

definition keys :: "store \<Rightarrow> StringMap \<Rightarrow> string list" where
  "keys st sm = map fst (entries st sm)"

text \<open>
  The index of the first occurrence of a key in a sequence of keys (its length when there
  is none): where the scans of \<^verbatim>\<open>Get\<close> and \<^verbatim>\<open>Delete\<close> stop.
\<close>

definition first_index :: "'a \<Rightarrow> 'a list \<Rightarrow> nat" where
  "first_index k ks = length (takeWhile (\<lambda>k'. k' \<noteq> k) ks)"

text \<open>
  The store after a new record \<open>(k, v)\<close> is allocated and a pointer to it is appended to
  the map's slice.
\<close>

definition appended :: "store \<Rightarrow> StringMap \<Rightarrow> string \<Rightarrow> string \<Rightarrow> store" where
  "appended st sm k v =
     st\<lparr>skvs := skvs st @ [\<lparr>otlp_Key = k, otlp_Value = v\<rparr>],
        slices := (slices st)[the (StringMap.orig sm) := elems st sm @ [Some (length (skvs st))]]\<rparr>"

text \<open>The store after the value of the record at a pointer is set.\<close>

definition updated :: "store \<Rightarrow> ptr \<Rightarrow> string \<Rightarrow> store" where
  "updated st p v = st\<lparr>skvs := (skvs st)[the p := (skvs st ! the p)\<lparr>otlp_Value := v\<rparr>]\<rparr>"

text \<open>
  What \<^verbatim>\<open>Delete\<close> does to a sequence at a match at index \<open>i\<close>: the last element is stored
  at \<open>i\<close> and the sequence is cut by one. \<open>removed\<close> is the store after that is done to
  the map's slice.
\<close>

definition swap_remove :: "nat \<Rightarrow> 'a list \<Rightarrow> 'a list" where
  "swap_remove i xs = take (length xs - 1) (xs[i := xs ! (length xs - 1)])"

definition removed :: "store \<Rightarrow> StringMap \<Rightarrow> nat \<Rightarrow> store" where
  "removed st sm i =
     st\<lparr>slices := (slices st)[the (StringMap.orig sm) := swap_remove i (elems st sm)]\<rparr>"

text \<open>
  The store after \<^verbatim>\<open>NewStringMap\<close>: the records of the entries are allocated in the order
  of the \<^verbatim>\<open>range\<close>, and a new slice variable holds the pointers to them.
\<close>

definition created :: "store \<Rightarrow> (string \<times> string) list \<Rightarrow> store" where
  "created st attrMap =
     st\<lparr>skvs := skvs st @ map (\<lambda>(k, v). \<lparr>otlp_Key = k, otlp_Value = v\<rparr>) attrMap,
        slices := slices st @ [map (\<lambda>i. Some (length (skvs st) + i)) [0..<length attrMap]]\<rparr>"

text \<open>The store after the map's slice is sorted stably by the keys its elements point to.\<close>

definition sorted_store :: "store \<Rightarrow> StringMap \<Rightarrow> store" where
  "sorted_store st sm =
     st\<lparr>slices := (slices st)[the (StringMap.orig sm) :=
           sort_key (\<lambda>p. fst (pair_at (skvs st) p)) (elems st sm)]\<rparr>"

text \<open>
  A map has unique keys when it is valid and no two entries of its sequence have the same
  key.
\<close>

definition unique_keys :: "store \<Rightarrow> StringMap \<Rightarrow> bool" where
  "unique_keys st sm = (valid_StringMap st sm \<and> distinct (keys st sm))"

text \<open>
  A client's calls of the methods that write, each on a map of its choice, and a run of
  such calls one after the other; the boolean of \<^verbatim>\<open>Delete\<close> and the map \<^verbatim>\<open>Sort\<close> returns are
  dropped, and a panic ends the run.
\<close>

datatype call =
    CallInsert string string
  | CallUpdate string string
  | CallUpsert string string
  | CallDelete string
  | CallSort

fun apply_call :: "StringMap \<Rightarrow> call \<Rightarrow> store \<Rightarrow> panic + store" where
  "apply_call sm (CallInsert k v) st = Insert sm k v st"
| "apply_call sm (CallUpdate k v) st = Update sm k v st"
| "apply_call sm (CallUpsert k v) st = Upsert sm k v st"
| "apply_call sm (CallDelete k) st =
     (case Delete sm k st of Inl e \<Rightarrow> Inl e | Inr (_, st') \<Rightarrow> Inr st')"
| "apply_call sm CallSort st =
     (case Sort sm st of Inl e \<Rightarrow> Inl e | Inr (_, st') \<Rightarrow> Inr st')"

fun run :: "(StringMap \<times> call) list \<Rightarrow> store \<Rightarrow> panic + store" where
  "run [] st = Inr st"
| "run ((sm, c) # rest) st =
     (case apply_call sm c st of Inl e \<Rightarrow> Inl e | Inr st' \<Rightarrow> run rest st')"

subsection \<open>InstrumentationLibrary\<close>

record InstrumentationLibrary =
  orig :: ptr

definition NewInstrumentationLibrary :: InstrumentationLibrary where
  "NewInstrumentationLibrary = \<lparr>InstrumentationLibrary.orig = None\<rparr>"

definition newInstrumentationLibrary :: "ptr \<Rightarrow> InstrumentationLibrary" where
  "newInstrumentationLibrary p = \<lparr>InstrumentationLibrary.orig = p\<rparr>"

definition Name :: "InstrumentationLibrary \<Rightarrow> store \<Rightarrow> panic + string" where
  "Name il st =
     (case load (ils st) (InstrumentationLibrary.orig il) of
        Inl e \<Rightarrow> Inl e
      | Inr r \<Rightarrow> Inr (otlp_Name r))"

definition SetName :: "InstrumentationLibrary \<Rightarrow> string \<Rightarrow> store \<Rightarrow> panic + store" where
  "SetName il r st =
     (case modify (\<lambda>x. x\<lparr>otlp_Name := r\<rparr>) (InstrumentationLibrary.orig il) (ils st) of
        Inl e \<Rightarrow> Inl e
      | Inr h \<Rightarrow> Inr (st\<lparr>ils := h\<rparr>))"

definition Version :: "InstrumentationLibrary \<Rightarrow> store \<Rightarrow> panic + string" where
  "Version il st =
     (case load (ils st) (InstrumentationLibrary.orig il) of
        Inl e \<Rightarrow> Inl e
      | Inr r \<Rightarrow> Inr (otlp_Version r))"

definition SetVersion :: "InstrumentationLibrary \<Rightarrow> string \<Rightarrow> store \<Rightarrow> panic + store" where
  "SetVersion il r st =
     (case modify (\<lambda>x. x\<lparr>otlp_Version := r\<rparr>) (InstrumentationLibrary.orig il) (ils st) of
        Inl e \<Rightarrow> Inl e
      | Inr h \<Rightarrow> Inr (st\<lparr>ils := h\<rparr>))"

section \<open>Pointers and arenas\<close>

lemma load_valid: "valid_ptr h p \<Longrightarrow> load h p = Inr (h ! the p)"
  by (simp add: valid_ptr_def load_def split: option.splits)

lemma modify_valid: "valid_ptr h p \<Longrightarrow> modify f p h = Inr (h[the p := f (h ! the p)])"
  by (simp add: valid_ptr_def modify_def split: option.splits)

lemma load_nil: "load h None = Inl NilPointerDereference"
  by (simp add: load_def)

lemma modify_nil: "modify f None h = Inl NilPointerDereference"
  by (simp add: modify_def)

lemma valid_ptr_update: "valid_ptr (h[a := r]) p = valid_ptr h p"
  by (simp add: valid_ptr_def split: option.splits)

lemma valid_ptr_append: "valid_ptr h p \<Longrightarrow> valid_ptr (h @ h') p"
  by (auto simp: valid_ptr_def split: option.splits)

lemma valid_ptr_fresh: "valid_ptr (h @ [r]) (Some (length h))"
  by (simp add: valid_ptr_def split: option.splits)

lemma valid_ptr_Some: "valid_ptr h p \<Longrightarrow> \<exists>a. p = Some a \<and> a < length h"
  by (cases p) (simp_all add: valid_ptr_def)

lemma SetString_valid:
  "valid_AttributeValue st a \<Longrightarrow>
   SetString a v st = Inr (st\<lparr>akvs := (akvs st)[the (AttributeValue.orig a) :=
     (slot st a)\<lparr>otlp_Type := AttributeKeyValue_STRING, otlp_StringValue := v\<rparr>]\<rparr>)"
  by (auto simp: SetString_def valid_AttributeValue_def slot_def modify_valid valid_ptr_update
      dest: valid_ptr_Some)

lemma SetInt_valid:
  "valid_AttributeValue st a \<Longrightarrow>
   SetInt a v st = Inr (st\<lparr>akvs := (akvs st)[the (AttributeValue.orig a) :=
     (slot st a)\<lparr>otlp_Type := AttributeKeyValue_INT, otlp_IntValue := v\<rparr>]\<rparr>)"
  by (auto simp: SetInt_def valid_AttributeValue_def slot_def modify_valid valid_ptr_update
      dest: valid_ptr_Some)

lemma SetDouble_valid:
  "valid_AttributeValue st a \<Longrightarrow>
   SetDouble a v st = Inr (st\<lparr>akvs := (akvs st)[the (AttributeValue.orig a) :=
     (slot st a)\<lparr>otlp_Type := AttributeKeyValue_DOUBLE, otlp_DoubleValue := v\<rparr>]\<rparr>)"
  by (auto simp: SetDouble_def valid_AttributeValue_def slot_def modify_valid valid_ptr_update
      dest: valid_ptr_Some)

lemma SetBool_valid:
  "valid_AttributeValue st a \<Longrightarrow>
   SetBool a v st = Inr (st\<lparr>akvs := (akvs st)[the (AttributeValue.orig a) :=
     (slot st a)\<lparr>otlp_Type := AttributeKeyValue_BOOL, otlp_BoolValue := v\<rparr>]\<rparr>)"
  by (auto simp: SetBool_def valid_AttributeValue_def slot_def modify_valid valid_ptr_update
      dest: valid_ptr_Some)

lemma getters_valid:
  assumes "valid_AttributeValue st a"
  shows "Type a st = Inr (AttributeValueType_of (otlp_Type (slot st a)))"
    and "StringVal a st = Inr (otlp_StringValue (slot st a))"
    and "IntVal a st = Inr (otlp_IntValue (slot st a))"
    and "DoubleVal a st = Inr (otlp_DoubleValue (slot st a))"
    and "BoolVal a st = Inr (otlp_BoolValue (slot st a))"
  using assms
  by (simp_all add: Type_def StringVal_def IntVal_def DoubleVal_def BoolVal_def
      valid_AttributeValue_def slot_def load_valid)

lemma valid_after_write:
  "valid_AttributeValue (st\<lparr>akvs := (akvs st)[x := r]\<rparr>) b = valid_AttributeValue st b"
  by (simp add: valid_AttributeValue_def valid_ptr_update)

lemma slot_after_write:
  "valid_AttributeValue st b \<Longrightarrow>
   slot (st\<lparr>akvs := (akvs st)[x := r]\<rparr>) b = (if AttributeValue.orig b = Some x then r else slot st b)"
  by (auto simp: valid_AttributeValue_def slot_def dest!: valid_ptr_Some)


lemma valid_after_alloc:
  "valid_AttributeValue st b \<Longrightarrow> valid_AttributeValue (st\<lparr>akvs := akvs st @ rs\<rparr>) b"
  by (simp add: valid_AttributeValue_def valid_ptr_append)

lemma NewAttributeValueString_valid:
  "NewAttributeValueString v st = (a, st') \<Longrightarrow>
   valid_AttributeValue st' a \<and> observe a st' =
     (Inr AttributeValueSTRING, Inr v, Inr 0, Inr 0, Inr False)"
  by (auto simp: NewAttributeValueString_def observe_def getters_valid slot_def
      valid_AttributeValue_def valid_ptr_fresh zero_AttributeKeyValue_def)

lemma NewAttributeValueInt_valid:
  "NewAttributeValueInt v st = (a, st') \<Longrightarrow>
   valid_AttributeValue st' a \<and> observe a st' =
     (Inr AttributeValueINT, Inr [], Inr v, Inr 0, Inr False)"
  by (auto simp: NewAttributeValueInt_def observe_def getters_valid slot_def
      valid_AttributeValue_def valid_ptr_fresh zero_AttributeKeyValue_def)

lemma NewAttributeValueDouble_valid:
  "NewAttributeValueDouble v st = (a, st') \<Longrightarrow>
   valid_AttributeValue st' a \<and> observe a st' =
     (Inr AttributeValueDOUBLE, Inr [], Inr 0, Inr v, Inr False)"
  by (auto simp: NewAttributeValueDouble_def observe_def getters_valid slot_def
      valid_AttributeValue_def valid_ptr_fresh zero_AttributeKeyValue_def)

lemma NewAttributeValueBool_valid:
  "NewAttributeValueBool v st = (a, st') \<Longrightarrow>
   valid_AttributeValue st' a \<and> observe a st' =
     (Inr AttributeValueBOOL, Inr [], Inr 0, Inr 0, Inr v)"
  by (auto simp: NewAttributeValueBool_def observe_def getters_valid slot_def
      valid_AttributeValue_def valid_ptr_fresh zero_AttributeKeyValue_def)

lemma wrappers_loop:
  "m \<le> length w \<Longrightarrow>
   foldl (\<lambda>w i. w[i := (w ! i)\<lparr>AttributeValue.orig := Some (base + i)\<rparr>]) w [0..<m] =
   map (\<lambda>i. (w ! i)\<lparr>AttributeValue.orig := Some (base + i)\<rparr>) [0..<m] @ drop m w"
proof (induction m)
  case 0
  then show ?case by simp
next
  case (Suc m)
  then have m: "m < length w" by simp
  have "(map (\<lambda>i. (w ! i)\<lparr>AttributeValue.orig := Some (base + i)\<rparr>) [0..<m] @ drop m w)
          [m := x] =
        map (\<lambda>i. (w ! i)\<lparr>AttributeValue.orig := Some (base + i)\<rparr>) [0..<m] @ x # drop (Suc m) w"
    for x
    using m by (simp add: list_update_append upd_conv_take_nth_drop Cons_nth_drop_Suc)
  moreover have "(map (\<lambda>i. (w ! i)\<lparr>AttributeValue.orig := Some (base + i)\<rparr>) [0..<m] @ drop m w) ! m
      = w ! m"
    using m by (simp add: nth_append)
  ultimately show ?case using Suc m by simp
qed

lemma setters_elsewhere:
  assumes "valid_AttributeValue st a" and "valid_AttributeValue st b"
    and "AttributeValue.orig a \<noteq> AttributeValue.orig b"
  shows "\<exists>st'. SetString a s st = Inr st' \<and> observe b st' = observe b st"
    and "\<exists>st'. SetInt a i st = Inr st' \<and> observe b st' = observe b st"
    and "\<exists>st'. SetDouble a d st = Inr st' \<and> observe b st' = observe b st"
    and "\<exists>st'. SetBool a c st = Inr st' \<and> observe b st' = observe b st"
proof -
  obtain x where x: "AttributeValue.orig a = Some x"
    using assms(1) by (auto simp: valid_AttributeValue_def dest: valid_ptr_Some)
  have *: "observe b (st\<lparr>akvs := (akvs st)[x := r]\<rparr>) = observe b st" for r
    using assms x
    by (simp add: observe_def getters_valid valid_after_write slot_after_write)
  show "\<exists>st'. SetString a s st = Inr st' \<and> observe b st' = observe b st"
    using assms(1) x * by (simp add: SetString_valid)
  show "\<exists>st'. SetInt a i st = Inr st' \<and> observe b st' = observe b st"
    using assms(1) x * by (simp add: SetInt_valid)
  show "\<exists>st'. SetDouble a d st = Inr st' \<and> observe b st' = observe b st"
    using assms(1) x * by (simp add: SetDouble_valid)
  show "\<exists>st'. SetBool a c st = Inr st' \<and> observe b st' = observe b st"
    using assms(1) x * by (simp add: SetBool_valid)
qed

text \<open>
  Claim C1. A handle \<open>h1\<close> that a \<^verbatim>\<open>NewAttributeValue*\<close> function returned is valid, and stays
  so (lemmas \<open>NewAttributeValueString_valid\<close> to \<open>NewAttributeValueBool_valid\<close>,
  \<open>NewAttributeValueSlice_eq\<close>, \<open>valid_after_write\<close>, \<open>valid_after_alloc\<close>). For every such
  handle and every copy \<open>h2\<close> of it, each of the four setters called on \<open>h2\<close> returns, and
  afterwards the matching getter of \<open>h1\<close> returns the value set and \<open>Type\<close> of \<open>h1\<close> returns the
  setter's discriminant.
\<close>

theorem setter_visible_through_copy:
  assumes "valid_AttributeValue st h1" and "h2 = h1"
  shows "(\<exists>st'. SetString h2 s st = Inr st' \<and> StringVal h1 st' = Inr s \<and>
              Type h1 st' = Inr AttributeValueSTRING) \<and>
         (\<exists>st'. SetInt h2 i st = Inr st' \<and> IntVal h1 st' = Inr i \<and>
              Type h1 st' = Inr AttributeValueINT) \<and>
         (\<exists>st'. SetDouble h2 d st = Inr st' \<and> DoubleVal h1 st' = Inr d \<and>
              Type h1 st' = Inr AttributeValueDOUBLE) \<and>
         (\<exists>st'. SetBool h2 b st = Inr st' \<and> BoolVal h1 st' = Inr b \<and>
              Type h1 st' = Inr AttributeValueBOOL)"
proof -
  obtain x where x: "AttributeValue.orig h1 = Some x"
    using assms(1) by (auto simp: valid_AttributeValue_def dest: valid_ptr_Some)
  show ?thesis
    using assms x
    by (simp add: SetString_valid SetInt_valid SetDouble_valid SetBool_valid
        getters_valid valid_after_write slot_after_write)
qed

theorem setter_visible_through_copy_witness:
  "valid_AttributeValue (snd (NewAttributeValueString ''a string'' empty_store))
     (fst (NewAttributeValueString ''a string'' empty_store)) \<and>
   (\<exists>st'. SetInt (fst (NewAttributeValueString ''a string'' empty_store)) 234
             (snd (NewAttributeValueString ''a string'' empty_store)) = Inr st' \<and>
          IntVal (fst (NewAttributeValueString ''a string'' empty_store)) st' = Inr 234 \<and>
          Type (fst (NewAttributeValueString ''a string'' empty_store)) st' = Inr AttributeValueINT)"
proof -
  have v: "valid_AttributeValue (snd (NewAttributeValueString ''a string'' empty_store))
     (fst (NewAttributeValueString ''a string'' empty_store))"
    by (simp add: NewAttributeValueString_def empty_store_def valid_AttributeValue_def
        valid_ptr_def)
  show ?thesis
    using v setter_visible_through_copy [OF v refl, of _ 234] by simp
qed


text \<open>
  Claim C5, as amended. On a valid handle each setter returns, and the store it leaves is
  the old one with the handle's slot overwritten in exactly two fields, the discriminant
  and the payload of the setter's type: every other payload of the slot, every other slot
  and the rest of the store are as before. \<^verbatim>\<open>Type\<close> then returns the setter's discriminant,
  and the stale payloads are not out of reach: the getters of the other three types return
  what they returned before the call.
\<close>

theorem setters_overwrite_two_fields:
  assumes "valid_AttributeValue st a"
  shows "(\<exists>st'. SetString a s st = Inr st' \<and>
            st' = st\<lparr>akvs := (akvs st)[the (AttributeValue.orig a) :=
                    (slot st a)\<lparr>otlp_Type := AttributeKeyValue_STRING, otlp_StringValue := s\<rparr>]\<rparr> \<and>
            Type a st' = Inr AttributeValueSTRING \<and>
            IntVal a st' = IntVal a st \<and> DoubleVal a st' = DoubleVal a st \<and>
            BoolVal a st' = BoolVal a st) \<and>
         (\<exists>st'. SetInt a i st = Inr st' \<and>
            st' = st\<lparr>akvs := (akvs st)[the (AttributeValue.orig a) :=
                    (slot st a)\<lparr>otlp_Type := AttributeKeyValue_INT, otlp_IntValue := i\<rparr>]\<rparr> \<and>
            Type a st' = Inr AttributeValueINT \<and>
            StringVal a st' = StringVal a st \<and> DoubleVal a st' = DoubleVal a st \<and>
            BoolVal a st' = BoolVal a st) \<and>
         (\<exists>st'. SetDouble a d st = Inr st' \<and>
            st' = st\<lparr>akvs := (akvs st)[the (AttributeValue.orig a) :=
                    (slot st a)\<lparr>otlp_Type := AttributeKeyValue_DOUBLE, otlp_DoubleValue := d\<rparr>]\<rparr> \<and>
            Type a st' = Inr AttributeValueDOUBLE \<and>
            StringVal a st' = StringVal a st \<and> IntVal a st' = IntVal a st \<and>
            BoolVal a st' = BoolVal a st) \<and>
         (\<exists>st'. SetBool a b st = Inr st' \<and>
            st' = st\<lparr>akvs := (akvs st)[the (AttributeValue.orig a) :=
                    (slot st a)\<lparr>otlp_Type := AttributeKeyValue_BOOL, otlp_BoolValue := b\<rparr>]\<rparr> \<and>
            Type a st' = Inr AttributeValueBOOL \<and>
            StringVal a st' = StringVal a st \<and> IntVal a st' = IntVal a st \<and>
            DoubleVal a st' = DoubleVal a st)"
proof -
  obtain x where x: "AttributeValue.orig a = Some x"
    using assms by (auto simp: valid_AttributeValue_def dest: valid_ptr_Some)
  show ?thesis
    using assms x
    by (simp add: SetString_valid SetInt_valid SetDouble_valid SetBool_valid
        getters_valid valid_after_write slot_after_write)
qed

theorem setters_overwrite_two_fields_witness:
  "valid_AttributeValue (snd (NewAttributeValueInt 5 empty_store))
     (fst (NewAttributeValueInt 5 empty_store)) \<and>
   (\<exists>st'. SetString (fst (NewAttributeValueInt 5 empty_store)) ''x''
             (snd (NewAttributeValueInt 5 empty_store)) = Inr st' \<and>
          akvs st' = [\<lparr>otlp_Type = AttributeKeyValue_STRING, otlp_StringValue = ''x'',
                       otlp_IntValue = 5, otlp_DoubleValue = 0, otlp_BoolValue = False\<rparr>] \<and>
          IntVal (fst (NewAttributeValueInt 5 empty_store)) st' = Inr 5)"
proof -
  have v: "valid_AttributeValue (snd (NewAttributeValueInt 5 empty_store))
     (fst (NewAttributeValueInt 5 empty_store))"
    by (simp add: NewAttributeValueInt_def empty_store_def valid_AttributeValue_def
        valid_ptr_def)
  have g: "IntVal (fst (NewAttributeValueInt 5 empty_store))
             (snd (NewAttributeValueInt 5 empty_store)) = Inr 5"
    by (simp add: NewAttributeValueInt_def empty_store_def IntVal_def load_def)
  show ?thesis
    using v g setters_overwrite_two_fields [OF v, of "''x''"]
    by (simp add: NewAttributeValueInt_def empty_store_def slot_def zero_AttributeKeyValue_def)
qed

text \<open>
  Claim C5 as stated fails in its last clause, that the stale value cannot be reached
  through the typed getters until its discriminant is restored: on the handle of
  \<^verbatim>\<open>NewAttributeValueInt(5)\<close>, after \<^verbatim>\<open>SetString("x")\<close> the discriminant is STRING and
  \<^verbatim>\<open>IntVal()\<close> still returns 5.
\<close>

theorem stale_payload_read_counterexample:
  "SetString (fst (NewAttributeValueInt 5 empty_store)) ''x''
     (snd (NewAttributeValueInt 5 empty_store)) =
     Inr \<lparr>akvs = [\<lparr>otlp_Type = AttributeKeyValue_STRING, otlp_StringValue = ''x'',
                      otlp_IntValue = 5, otlp_DoubleValue = 0, otlp_BoolValue = False\<rparr>],
          skvs = [], slices = [], ils = []\<rparr> \<and>
   Type (fst (NewAttributeValueInt 5 empty_store))
     \<lparr>akvs = [\<lparr>otlp_Type = AttributeKeyValue_STRING, otlp_StringValue = ''x'',
                  otlp_IntValue = 5, otlp_DoubleValue = 0, otlp_BoolValue = False\<rparr>],
      skvs = [], slices = [], ils = []\<rparr> = Inr AttributeValueSTRING \<and>
   IntVal (fst (NewAttributeValueInt 5 empty_store))
     \<lparr>akvs = [\<lparr>otlp_Type = AttributeKeyValue_STRING, otlp_StringValue = ''x'',
                  otlp_IntValue = 5, otlp_DoubleValue = 0, otlp_BoolValue = False\<rparr>],
      skvs = [], slices = [], ils = []\<rparr> = Inr 5"
  by (simp add: NewAttributeValueInt_def empty_store_def SetString_def modify_def Type_def
      IntVal_def load_def zero_AttributeKeyValue_def)

text \<open>
  Claim C6. On a valid handle each getter returns (it is not a fault) the payload field of
  its type as the slot holds it, whatever the discriminant: replacing the discriminant of
  the slot by any \<open>t\<close> changes none of the four results.
\<close>

theorem getters_ignore_discriminant:
  assumes "valid_AttributeValue st a"
  shows "StringVal a st = Inr (otlp_StringValue (slot st a)) \<and>
         IntVal a st = Inr (otlp_IntValue (slot st a)) \<and>
         DoubleVal a st = Inr (otlp_DoubleValue (slot st a)) \<and>
         BoolVal a st = Inr (otlp_BoolValue (slot st a)) \<and>
         (\<forall>t. StringVal a (st\<lparr>akvs := (akvs st)[the (AttributeValue.orig a) :=
                   (slot st a)\<lparr>otlp_Type := t\<rparr>]\<rparr>) = StringVal a st \<and>
              IntVal a (st\<lparr>akvs := (akvs st)[the (AttributeValue.orig a) :=
                   (slot st a)\<lparr>otlp_Type := t\<rparr>]\<rparr>) = IntVal a st \<and>
              DoubleVal a (st\<lparr>akvs := (akvs st)[the (AttributeValue.orig a) :=
                   (slot st a)\<lparr>otlp_Type := t\<rparr>]\<rparr>) = DoubleVal a st \<and>
              BoolVal a (st\<lparr>akvs := (akvs st)[the (AttributeValue.orig a) :=
                   (slot st a)\<lparr>otlp_Type := t\<rparr>]\<rparr>) = BoolVal a st)"
proof -
  obtain x where x: "AttributeValue.orig a = Some x"
    using assms by (auto simp: valid_AttributeValue_def dest: valid_ptr_Some)
  show ?thesis
    using assms x
    by (simp add: getters_valid valid_after_write slot_after_write)
qed

theorem getters_ignore_discriminant_witness:
  "valid_AttributeValue (snd (NewAttributeValueInt 5 empty_store))
     (fst (NewAttributeValueInt 5 empty_store)) \<and>
   Type (fst (NewAttributeValueInt 5 empty_store)) (snd (NewAttributeValueInt 5 empty_store)) =
     Inr AttributeValueINT \<and>
   StringVal (fst (NewAttributeValueInt 5 empty_store)) (snd (NewAttributeValueInt 5 empty_store)) =
     Inr [] \<and>
   BoolVal (fst (NewAttributeValueInt 5 empty_store)) (snd (NewAttributeValueInt 5 empty_store)) =
     Inr False"
proof -
  have v: "valid_AttributeValue (snd (NewAttributeValueInt 5 empty_store))
     (fst (NewAttributeValueInt 5 empty_store))"
    by (simp add: NewAttributeValueInt_def empty_store_def valid_AttributeValue_def
        valid_ptr_def)
  have t: "Type (fst (NewAttributeValueInt 5 empty_store))
      (snd (NewAttributeValueInt 5 empty_store)) = Inr AttributeValueINT"
    by (simp add: NewAttributeValueInt_def empty_store_def Type_def load_def)
  show ?thesis
    using v t getters_ignore_discriminant [OF v]
    by (simp add: NewAttributeValueInt_def empty_store_def slot_def zero_AttributeKeyValue_def)
qed

lemma NewAttributeValueSlice_eq:
  "0 \<le> sint len \<Longrightarrow> sint len \<le> int (make_limit limit) \<Longrightarrow>
   NewAttributeValueSlice limit len st =
     Inr (map (\<lambda>i. \<lparr>AttributeValue.orig = Some (length (akvs st) + i)\<rparr>) [0..<nat (sint len)],
          st\<lparr>akvs := akvs st @ replicate (nat (sint len)) zero_AttributeKeyValue\<rparr>)"
  by (simp add: NewAttributeValueSlice_def Let_def wrappers_loop)

lemma NewAttributeValueSlice_panics:
  "sint len < 0 \<or> int (make_limit limit) < sint len \<Longrightarrow>
   NewAttributeValueSlice limit len st = Inl MakeSliceLenOutOfRange"
  by (auto simp: NewAttributeValueSlice_def)

text \<open>
  Claim C8. For a length \<open>len\<close> that \<^verbatim>\<open>make\<close> accepts (not negative, within the runtime's
  limit; otherwise the function panics, lemma \<open>NewAttributeValueSlice_panics\<close>),
  \<^verbatim>\<open>NewAttributeValueSlice\<close> returns \<open>len\<close> handles and the store extended by \<open>len\<close> new zero
  slots and otherwise unchanged. The handle at index \<open>i\<close> points to the new slot \<open>i\<close>, which
  no handle of the old store points to, so the slots are new and pairwise different. And
  the slots are independent in every store in which the handles are valid, that is, after
  whatever has been written since: for \<open>i \<noteq> j\<close>, every setter called on the handle at \<open>i\<close>
  returns and leaves the discriminant and the four payloads read through the handle at \<open>j\<close>
  as they were.
\<close>

theorem NewAttributeValueSlice_independent:
  assumes "0 \<le> sint len" and "sint len \<le> int (make_limit limit)"
  shows "\<exists>hs st1. NewAttributeValueSlice limit len st = Inr (hs, st1) \<and>
           length hs = nat (sint len) \<and>
           st1 = st\<lparr>akvs := akvs st @ replicate (nat (sint len)) zero_AttributeKeyValue\<rparr> \<and>
           distinct (map AttributeValue.orig hs) \<and>
           (\<forall>i<nat (sint len).
              AttributeValue.orig (hs ! i) = Some (length (akvs st) + i) \<and>
              \<not> valid_AttributeValue st (hs ! i) \<and> valid_AttributeValue st1 (hs ! i) \<and>
              slot st1 (hs ! i) = zero_AttributeKeyValue) \<and>
           (\<forall>st2. (\<forall>i<nat (sint len). valid_AttributeValue st2 (hs ! i)) \<longrightarrow>
              (\<forall>i<nat (sint len). \<forall>j<nat (sint len). i \<noteq> j \<longrightarrow>
                 (\<forall>s. \<exists>st3. SetString (hs ! i) s st2 = Inr st3 \<and>
                       observe (hs ! j) st3 = observe (hs ! j) st2) \<and>
                 (\<forall>v. \<exists>st3. SetInt (hs ! i) v st2 = Inr st3 \<and>
                       observe (hs ! j) st3 = observe (hs ! j) st2) \<and>
                 (\<forall>d. \<exists>st3. SetDouble (hs ! i) d st2 = Inr st3 \<and>
                       observe (hs ! j) st3 = observe (hs ! j) st2) \<and>
                 (\<forall>b. \<exists>st3. SetBool (hs ! i) b st2 = Inr st3 \<and>
                       observe (hs ! j) st3 = observe (hs ! j) st2)))"
proof -
  let ?n = "nat (sint len)"
  define hs where "hs = map (\<lambda>i. \<lparr>AttributeValue.orig = Some (length (akvs st) + i)\<rparr>) [0..<?n]"
  define st1 where "st1 = st\<lparr>akvs := akvs st @ replicate ?n zero_AttributeKeyValue\<rparr>"
  have eq: "NewAttributeValueSlice limit len st = Inr (hs, st1)"
    using assms by (simp add: NewAttributeValueSlice_eq hs_def st1_def)
  have len: "length hs = ?n" by (simp add: hs_def)
  have orig: "AttributeValue.orig (hs ! i) = Some (length (akvs st) + i)" if "i < ?n" for i
    using that by (simp add: hs_def)
  have origs: "map AttributeValue.orig hs = map (\<lambda>i. Some (length (akvs st) + i)) [0..<?n]"
    by (simp add: hs_def o_def)
  have dist: "distinct (map AttributeValue.orig hs)"
    unfolding origs by (simp add: distinct_map inj_on_def)
  have fresh: "\<not> valid_AttributeValue st (hs ! i)" if "i < ?n" for i
    using that by (simp add: valid_AttributeValue_def valid_ptr_def orig)
  have valid: "valid_AttributeValue st1 (hs ! i)" if "i < ?n" for i
    using that by (simp add: valid_AttributeValue_def valid_ptr_def orig st1_def)
  have zero: "slot st1 (hs ! i) = zero_AttributeKeyValue" if "i < ?n" for i
    using that by (simp add: slot_def orig st1_def nth_append)
  have indep:
    "(\<forall>s. \<exists>st3. SetString (hs ! i) s st2 = Inr st3 \<and> observe (hs ! j) st3 = observe (hs ! j) st2) \<and>
     (\<forall>v. \<exists>st3. SetInt (hs ! i) v st2 = Inr st3 \<and> observe (hs ! j) st3 = observe (hs ! j) st2) \<and>
     (\<forall>d. \<exists>st3. SetDouble (hs ! i) d st2 = Inr st3 \<and> observe (hs ! j) st3 = observe (hs ! j) st2) \<and>
     (\<forall>b. \<exists>st3. SetBool (hs ! i) b st2 = Inr st3 \<and> observe (hs ! j) st3 = observe (hs ! j) st2)"
    if v2: "\<forall>i<?n. valid_AttributeValue st2 (hs ! i)" and ij: "i < ?n" "j < ?n" "i \<noteq> j"
    for st2 i j
  proof -
    have "AttributeValue.orig (hs ! i) \<noteq> AttributeValue.orig (hs ! j)"
      using ij by (simp add: orig)
    moreover have "valid_AttributeValue st2 (hs ! i)" "valid_AttributeValue st2 (hs ! j)"
      using v2 ij by simp_all
    ultimately show ?thesis
      using setters_elsewhere [of st2 "hs ! i" "hs ! j"] by blast
  qed
  have A: "\<forall>i<?n.
              AttributeValue.orig (hs ! i) = Some (length (akvs st) + i) \<and>
              \<not> valid_AttributeValue st (hs ! i) \<and> valid_AttributeValue st1 (hs ! i) \<and>
              slot st1 (hs ! i) = zero_AttributeKeyValue"
  proof (intro allI impI conjI)
    fix i assume i: "i < ?n"
    show "AttributeValue.orig (hs ! i) = Some (length (akvs st) + i)" using i by (rule orig)
    show "\<not> valid_AttributeValue st (hs ! i)" using i by (rule fresh)
    show "valid_AttributeValue st1 (hs ! i)" using i by (rule valid)
    show "slot st1 (hs ! i) = zero_AttributeKeyValue" using i by (rule zero)
  qed
  have B: "\<forall>st2. (\<forall>i<?n. valid_AttributeValue st2 (hs ! i)) \<longrightarrow>
              (\<forall>i<?n. \<forall>j<?n. i \<noteq> j \<longrightarrow>
                 (\<forall>s. \<exists>st3. SetString (hs ! i) s st2 = Inr st3 \<and>
                       observe (hs ! j) st3 = observe (hs ! j) st2) \<and>
                 (\<forall>v. \<exists>st3. SetInt (hs ! i) v st2 = Inr st3 \<and>
                       observe (hs ! j) st3 = observe (hs ! j) st2) \<and>
                 (\<forall>d. \<exists>st3. SetDouble (hs ! i) d st2 = Inr st3 \<and>
                       observe (hs ! j) st3 = observe (hs ! j) st2) \<and>
                 (\<forall>b. \<exists>st3. SetBool (hs ! i) b st2 = Inr st3 \<and>
                       observe (hs ! j) st3 = observe (hs ! j) st2))"
  proof (intro allI impI)
    fix st2 i j
    assume "\<forall>i<?n. valid_AttributeValue st2 (hs ! i)" "i < ?n" "j < ?n" "i \<noteq> j"
    then show
      "(\<forall>s. \<exists>st3. SetString (hs ! i) s st2 = Inr st3 \<and> observe (hs ! j) st3 = observe (hs ! j) st2) \<and>
       (\<forall>v. \<exists>st3. SetInt (hs ! i) v st2 = Inr st3 \<and> observe (hs ! j) st3 = observe (hs ! j) st2) \<and>
       (\<forall>d. \<exists>st3. SetDouble (hs ! i) d st2 = Inr st3 \<and> observe (hs ! j) st3 = observe (hs ! j) st2) \<and>
       (\<forall>b. \<exists>st3. SetBool (hs ! i) b st2 = Inr st3 \<and> observe (hs ! j) st3 = observe (hs ! j) st2)"
      by (rule indep)
  qed
  have C: "st1 = st\<lparr>akvs := akvs st @ replicate ?n zero_AttributeKeyValue\<rparr>" by (rule st1_def)
  show ?thesis
    by (intro exI [of _ hs] exI [of _ st1] conjI) (rule eq len C dist A B)+
qed


theorem NewAttributeValueSlice_independent_witness:
  "0 \<le> sint (2 :: go_int) \<and> sint (2 :: go_int) \<le> int (make_limit 1000) \<and>
   (\<exists>hs st1 st2 st3.
      NewAttributeValueSlice 1000 2 empty_store = Inr (hs, st1) \<and> length hs = 2 \<and>
      AttributeValue.orig (hs ! 0) = Some 0 \<and> AttributeValue.orig (hs ! 1) = Some 1 \<and>
      SetInt (hs ! 1) 7 st1 = Inr st2 \<and> SetString (hs ! 0) ''x'' st2 = Inr st3 \<and>
      observe (hs ! 1) st3 = (Inr AttributeValueINT, Inr [], Inr 7, Inr 0, Inr False))"
proof -
  have h1: "0 \<le> sint (2 :: go_int)" by simp
  have h2: "sint (2 :: go_int) \<le> int (make_limit 1000)" by (simp add: make_limit_def)
  from NewAttributeValueSlice_independent [OF h1 h2, of empty_store]
  obtain hs st1 where
    eq: "NewAttributeValueSlice 1000 2 empty_store = Inr (hs, st1)" and len: "length hs = 2" and
    A: "\<forall>i<2. AttributeValue.orig (hs ! i) = Some (length (akvs empty_store) + i) \<and>
              \<not> valid_AttributeValue empty_store (hs ! i) \<and> valid_AttributeValue st1 (hs ! i) \<and>
              slot st1 (hs ! i) = zero_AttributeKeyValue" and
    B: "\<forall>st2. (\<forall>i<2. valid_AttributeValue st2 (hs ! i)) \<longrightarrow>
              (\<forall>i<2. \<forall>j<2. i \<noteq> j \<longrightarrow>
                 (\<forall>s. \<exists>st3. SetString (hs ! i) s st2 = Inr st3 \<and>
                       observe (hs ! j) st3 = observe (hs ! j) st2) \<and>
                 (\<forall>v. \<exists>st3. SetInt (hs ! i) v st2 = Inr st3 \<and>
                       observe (hs ! j) st3 = observe (hs ! j) st2) \<and>
                 (\<forall>d. \<exists>st3. SetDouble (hs ! i) d st2 = Inr st3 \<and>
                       observe (hs ! j) st3 = observe (hs ! j) st2) \<and>
                 (\<forall>b. \<exists>st3. SetBool (hs ! i) b st2 = Inr st3 \<and>
                       observe (hs ! j) st3 = observe (hs ! j) st2))"
    by auto
  have o0: "AttributeValue.orig (hs ! 0) = Some 0" and o1: "AttributeValue.orig (hs ! 1) = Some 1"
    using A by (simp_all add: empty_store_def)
  have v0: "valid_AttributeValue st1 (hs ! 0)" and v1: "valid_AttributeValue st1 (hs ! 1)"
    and z1: "slot st1 (hs ! 1) = zero_AttributeKeyValue"
    using A by simp_all
  define st2 where "st2 = st1\<lparr>akvs := (akvs st1)[the (AttributeValue.orig (hs ! 1)) :=
      (slot st1 (hs ! 1))\<lparr>otlp_Type := AttributeKeyValue_INT, otlp_IntValue := 7\<rparr>]\<rparr>"
  have s2: "SetInt (hs ! 1) 7 st1 = Inr st2"
    using v1 by (simp add: SetInt_valid st2_def)
  have v2: "\<forall>i<2. valid_AttributeValue st2 (hs ! i)"
    using A by (simp add: st2_def valid_after_write)
  have ob: "observe (hs ! 1) st2 = (Inr AttributeValueINT, Inr [], Inr 7, Inr 0, Inr False)"
    using v1 v2 o1 z1
    by (simp add: observe_def getters_valid st2_def slot_after_write zero_AttributeKeyValue_def)
  from B v2 have "\<exists>st3. SetString (hs ! 0) ''x'' st2 = Inr st3 \<and>
      observe (hs ! 1) st3 = observe (hs ! 1) st2"
    by auto
  then obtain st3 where "SetString (hs ! 0) ''x'' st2 = Inr st3"
    "observe (hs ! 1) st3 = observe (hs ! 1) st2" by blast
  with eq len o0 o1 s2 ob h1 h2 show ?thesis by auto
qed

text \<open>
  Claim C9. \<^verbatim>\<open>NewInstrumentationLibrary\<close> returns the handle whose pointer is nil, the same
  value as the zero-initialised struct, and each of \<^verbatim>\<open>Name\<close>, \<^verbatim>\<open>SetName\<close>, \<^verbatim>\<open>Version\<close> and
  \<^verbatim>\<open>SetVersion\<close> called on it is a nil-pointer dereference, in every store.
\<close>

theorem NewInstrumentationLibrary_nil:
  "InstrumentationLibrary.orig NewInstrumentationLibrary = None \<and>
   NewInstrumentationLibrary = newInstrumentationLibrary None \<and>
   Name NewInstrumentationLibrary st = Inl NilPointerDereference \<and>
   SetName NewInstrumentationLibrary r st = Inl NilPointerDereference \<and>
   Version NewInstrumentationLibrary st = Inl NilPointerDereference \<and>
   SetVersion NewInstrumentationLibrary r st = Inl NilPointerDereference"
  by (simp add: NewInstrumentationLibrary_def newInstrumentationLibrary_def Name_def
      SetName_def Version_def SetVersion_def load_nil modify_nil)

section \<open>StringMap\<close>

lemma valid_StringMap_orig:
  "valid_StringMap st sm \<Longrightarrow> valid_ptr (slices st) (StringMap.orig sm)"
  by (simp add: valid_StringMap_def valid_ptr_def split: option.splits)

lemma valid_StringMap_elems:
  "valid_StringMap st sm \<Longrightarrow> list_all (valid_ptr (skvs st)) (elems st sm)"
  by (simp add: valid_StringMap_def elems_def split: option.splits)

lemma valid_StringMap_distinct:
  "valid_StringMap st sm \<Longrightarrow> distinct (elems st sm)"
  by (simp add: valid_StringMap_def elems_def split: option.splits)

lemma load_slice:
  "valid_StringMap st sm \<Longrightarrow> load (slices st) (StringMap.orig sm) = Inr (elems st sm)"
  by (simp add: load_valid valid_StringMap_orig elems_def)

lemma Get_loop_find:
  "list_all (valid_ptr h) s \<Longrightarrow>
   Get_loop h s k =
     Inr (case find (\<lambda>p. fst (pair_at h p) = k) s of
            None \<Rightarrow> (\<lparr>StringKeyValue.orig = None\<rparr>, False)
          | Some p \<Rightarrow> (\<lparr>StringKeyValue.orig = p\<rparr>, True))"
proof (induction s)
  case Nil
  then show ?case by simp
next
  case (Cons a s)
  then show ?case by (simp add: load_valid pair_at_def)
qed

lemma Get_find:
  "valid_StringMap st sm \<Longrightarrow>
   Get sm k st =
     Inr (case find (\<lambda>p. fst (pair_at (skvs st) p) = k) (elems st sm) of
            None \<Rightarrow> (\<lparr>StringKeyValue.orig = None\<rparr>, False)
          | Some p \<Rightarrow> (\<lparr>StringKeyValue.orig = p\<rparr>, True))"
  by (simp add: Get_def load_slice Get_loop_find valid_StringMap_elems)

lemma find_first_index:
  "k \<in> f ` set s \<Longrightarrow> find (\<lambda>p. f p = k) s = Some (s ! first_index k (map f s))"
  by (induction s) (auto simp: first_index_def)

lemma find_absent: "k \<notin> f ` set s \<Longrightarrow> find (\<lambda>p. f p = k) s = None"
  by (induction s) auto

lemma first_index_less: "k \<in> set ks \<Longrightarrow> first_index k ks < length ks"
  by (induction ks) (auto simp: first_index_def)

lemma first_index_nth: "k \<in> set ks \<Longrightarrow> ks ! first_index k ks = k"
  by (induction ks) (auto simp: first_index_def)

lemma keys_eq: "keys st sm = map (\<lambda>p. fst (pair_at (skvs st) p)) (elems st sm)"
  by (simp add: keys_def entries_def)

lemma Get_absent:
  "valid_StringMap st sm \<Longrightarrow> k \<notin> set (keys st sm) \<Longrightarrow>
   Get sm k st = Inr (\<lparr>StringKeyValue.orig = None\<rparr>, False)"
  by (simp add: Get_find keys_eq find_absent)

lemma Get_present:
  "valid_StringMap st sm \<Longrightarrow> k \<in> set (keys st sm) \<Longrightarrow>
   Get sm k st =
     Inr (\<lparr>StringKeyValue.orig = elems st sm ! first_index k (keys st sm)\<rparr>, True)"
  by (simp add: Get_find keys_eq find_first_index)

lemma list_all_valid_ptrD:
  "list_all (valid_ptr h) s \<Longrightarrow> p \<in> set s \<Longrightarrow> valid_ptr h p"
  by (simp add: list_all_iff)

lemma pair_at_append: "valid_ptr h p \<Longrightarrow> pair_at (h @ h') p = pair_at h p"
  by (auto simp: pair_at_def nth_append dest: valid_ptr_Some)

lemma map_pair_at_append:
  "list_all (valid_ptr h) s \<Longrightarrow> map (pair_at (h @ h')) s = map (pair_at h) s"
  by (simp add: list_all_iff pair_at_append)

lemma fresh_not_elem: "list_all (valid_ptr h) s \<Longrightarrow> Some (length h) \<notin> set s"
  by (auto simp: list_all_iff valid_ptr_def)

lemma append_new_valid:
  "valid_StringMap st sm \<Longrightarrow> append_new sm k v st = Inr (appended st sm k v)"
  by (auto simp: append_new_def load_slice NewStringKeyValue_def modify_valid
      valid_StringMap_orig appended_def dest!: valid_StringMap_orig)

lemma elems_appended:
  "valid_StringMap st sm \<Longrightarrow>
   elems (appended st sm k v) sm = elems st sm @ [Some (length (skvs st))]"
  by (auto simp: appended_def elems_def dest!: valid_StringMap_orig valid_ptr_Some)

lemma skvs_appended: "skvs (appended st sm k v) = skvs st @ [\<lparr>otlp_Key = k, otlp_Value = v\<rparr>]"
  by (simp add: appended_def)

lemma entries_appended:
  assumes "valid_StringMap st sm"
  shows "entries (appended st sm k v) sm = entries st sm @ [(k, v)]"
proof -
  have "map (pair_at (skvs st @ [\<lparr>otlp_Key = k, otlp_Value = v\<rparr>])) (elems st sm) =
        map (pair_at (skvs st)) (elems st sm)"
    using assms by (simp add: map_pair_at_append valid_StringMap_elems)
  moreover have "pair_at (skvs st @ [\<lparr>otlp_Key = k, otlp_Value = v\<rparr>]) (Some (length (skvs st))) = (k, v)"
    by (simp add: pair_at_def)
  ultimately show ?thesis
    using assms by (simp add: entries_def elems_appended skvs_appended)
qed

lemma valid_appended:
  assumes "valid_StringMap st sm"
  shows "valid_StringMap (appended st sm k v) sm"
proof -
  obtain x where x: "StringMap.orig sm = Some x" "x < length (slices st)"
    using assms by (auto dest!: valid_StringMap_orig valid_ptr_Some)
  have e: "slices (appended st sm k v) ! x = elems st sm @ [Some (length (skvs st))]"
    using x by (simp add: appended_def)
  have "list_all (valid_ptr (skvs st @ [\<lparr>otlp_Key = k, otlp_Value = v\<rparr>])) (elems st sm)"
    using valid_StringMap_elems [OF assms] by (auto simp: list_all_iff intro: valid_ptr_append)
  moreover have "distinct (elems st sm @ [Some (length (skvs st))])"
    using valid_StringMap_distinct [OF assms] fresh_not_elem [OF valid_StringMap_elems [OF assms]]
    by simp
  ultimately show ?thesis
    using x e by (simp add: valid_StringMap_def skvs_appended valid_ptr_fresh) (simp add: appended_def)
qed

lemma SetValue_valid:
  "valid_ptr (skvs st) p \<Longrightarrow> SetValue \<lparr>StringKeyValue.orig = p\<rparr> v st = Inr (updated st p v)"
  by (simp add: SetValue_def modify_valid updated_def)

lemma elems_updated: "elems (updated st p v) sm = elems st sm"
  by (simp add: updated_def elems_def)

lemma valid_ptr_update_fun: "valid_ptr (h[a := r]) = valid_ptr h"
  by (rule ext) (simp add: valid_ptr_update)

lemma valid_updated: "valid_StringMap (updated st p v) sm = valid_StringMap st sm"
  by (simp add: valid_StringMap_def updated_def valid_ptr_update_fun split: option.splits)

lemma pair_at_updated:
  "valid_ptr (skvs st) p \<Longrightarrow> valid_ptr (skvs st) q \<Longrightarrow>
   pair_at (skvs (updated st p v)) q =
     (if q = p then (fst (pair_at (skvs st) p), v) else pair_at (skvs st) q)"
  by (auto simp: updated_def pair_at_def dest!: valid_ptr_Some)

lemma map_update_distinct:
  "distinct s \<Longrightarrow> i < length s \<Longrightarrow>
   map (\<lambda>q. if q = s ! i then y else f q) s = (map f s)[i := y]"
  by (auto simp: list_eq_iff_nth_eq nth_list_update nth_eq_iff_index_eq)

lemma entries_updated:
  assumes "valid_StringMap st sm" and "i < length (elems st sm)"
  shows "entries (updated st (elems st sm ! i) v) sm =
         (entries st sm)[i := (fst (entries st sm ! i), v)]"
proof -
  let ?s = "elems st sm" and ?h = "skvs st"
  have vp: "valid_ptr ?h (?s ! i)"
    using valid_StringMap_elems [OF assms(1)] assms(2) by (simp add: list_all_length)
  have "map (pair_at (skvs (updated st (?s ! i) v))) ?s =
        map (\<lambda>q. if q = ?s ! i then (fst (pair_at ?h (?s ! i)), v) else pair_at ?h q) ?s"
    using assms(1) vp
    using valid_StringMap_elems [OF assms(1)]
    by (intro map_cong refl) (simp add: pair_at_updated list_all_iff)
  also have "\<dots> = (map (pair_at ?h) ?s)[i := (fst (pair_at ?h (?s ! i)), v)]"
    using assms by (simp add: map_update_distinct valid_StringMap_distinct)
  finally show ?thesis
    using assms(2) by (simp add: entries_def elems_updated)
qed

lemma length_entries: "length (entries st sm) = length (elems st sm)"
  by (simp add: entries_def)

lemma length_keys: "length (keys st sm) = length (elems st sm)"
  by (simp add: keys_def entries_def)

lemma keys_updated:
  assumes "valid_StringMap st sm" and "i < length (elems st sm)"
  shows "keys (updated st (elems st sm ! i) v) sm = keys st sm"
  using assms
  by (simp add: keys_def entries_updated map_update length_entries list_update_same_conv)

lemma Insert_valid:
  "valid_StringMap st sm \<Longrightarrow>
   Insert sm k v st = Inr (if k \<in> set (keys st sm) then st else appended st sm k v)"
  by (simp add: Insert_def Get_present Get_absent append_new_valid)

lemma elem_valid:
  "valid_StringMap st sm \<Longrightarrow> i < length (elems st sm) \<Longrightarrow> valid_ptr (skvs st) (elems st sm ! i)"
  using valid_StringMap_elems [of st sm] by (simp add: list_all_length)

lemma first_index_elems:
  "k \<in> set (keys st sm) \<Longrightarrow> first_index k (keys st sm) < length (elems st sm)"
  using first_index_less [of k "keys st sm"] by (simp add: length_keys)

lemma Update_valid:
  "valid_StringMap st sm \<Longrightarrow>
   Update sm k v st =
     Inr (if k \<in> set (keys st sm)
          then updated st (elems st sm ! first_index k (keys st sm)) v else st)"
  by (simp add: Update_def Get_present Get_absent SetValue_valid elem_valid first_index_elems)

lemma Upsert_valid:
  "valid_StringMap st sm \<Longrightarrow>
   Upsert sm k v st =
     Inr (if k \<in> set (keys st sm)
          then updated st (elems st sm ! first_index k (keys st sm)) v
          else appended st sm k v)"
  by (simp add: Upsert_def Get_present Get_absent SetValue_valid elem_valid first_index_elems
      append_new_valid)

lemma Get_present_pair:
  assumes "valid_StringMap st sm" and "k \<in> set (keys st sm)"
  shows "\<exists>h. Get sm k st = Inr (h, True) \<and> Key h st = Inr k \<and>
             Value h st = Inr (snd (entries st sm ! first_index k (keys st sm)))"
proof -
  let ?i = "first_index k (keys st sm)"
  have i: "?i < length (elems st sm)" using assms(2) by (rule first_index_elems)
  have vp: "valid_ptr (skvs st) (elems st sm ! ?i)" using assms(1) i by (rule elem_valid)
  have "fst (entries st sm ! ?i) = k"
    using first_index_nth [OF assms(2)] i by (simp add: keys_def length_entries)
  then show ?thesis
    using assms i vp
    by (simp add: Get_present Key_def Value_def load_valid entries_def pair_at_def)
qed

lemma keys_appended:
  "valid_StringMap st sm \<Longrightarrow> keys (appended st sm k v) sm = keys st sm @ [k]"
  by (simp add: keys_def entries_appended)

lemma NewStringMap_empty:
  "NewStringMap [] st =
     Inr (\<lparr>StringMap.orig = Some (length (slices st))\<rparr>, st\<lparr>slices := slices st @ [[]]\<rparr>)"
  by (simp add: NewStringMap_def)

lemma valid_empty:
  "valid_StringMap (st\<lparr>slices := slices st @ [[]]\<rparr>) \<lparr>StringMap.orig = Some (length (slices st))\<rparr>"
  by (simp add: valid_StringMap_def)

lemma entries_empty:
  "entries (st\<lparr>slices := slices st @ [[]]\<rparr>) \<lparr>StringMap.orig = Some (length (slices st))\<rparr> = []"
  by (simp add: entries_def elems_def)

lemma first_index_append: "k \<in> set ks \<Longrightarrow> first_index k (ks @ ks') = first_index k ks"
  by (induction ks) (auto simp: first_index_def)

lemma first_index_snoc: "k \<notin> set ks \<Longrightarrow> first_index k (ks @ [k]) = length ks"
  by (induction ks) (auto simp: first_index_def)

text \<open>
  Claim C2. On a valid map, \<^verbatim>\<open>Get\<close> returns, and it finds the key exactly when the key is
  among the keys of the sequence. When it is, \<^verbatim>\<open>Insert\<close> returns the store as it was: the
  slice and every record are unchanged, the value is not overwritten. When it is not,
  \<^verbatim>\<open>Insert\<close> returns the store with one new record \<open>(k, v)\<close> and the slice extended by a
  pointer to it at the end: the elements before it and the pairs they hold are the same,
  in the same order. And from any store, on the empty map of \<^verbatim>\<open>NewStringMap\<close>, inserting
  \<open>("a", "1")\<close> and then \<open>("a", "2")\<close> leaves \<^verbatim>\<open>Get("a")\<close> finding the value \<open>"1"\<close>.
\<close>

theorem Insert_no_overwrite:
  assumes "valid_StringMap st sm"
  shows "(\<exists>h. Get sm k st = Inr (h, k \<in> set (keys st sm))) \<and>
         (k \<in> set (keys st sm) \<longrightarrow> Insert sm k v st = Inr st) \<and>
         (k \<notin> set (keys st sm) \<longrightarrow>
            (\<exists>st'. Insert sm k v st = Inr st' \<and> st' = appended st sm k v \<and>
                   valid_StringMap st' sm \<and>
                   elems st' sm = elems st sm @ [Some (length (skvs st))] \<and>
                   skvs st' = skvs st @ [\<lparr>otlp_Key = k, otlp_Value = v\<rparr>] \<and>
                   entries st' sm = entries st sm @ [(k, v)])) \<and>
         (\<forall>st0. \<exists>sm0 st1 st2 st3 h.
            NewStringMap [] st0 = Inr (sm0, st1) \<and> entries st1 sm0 = [] \<and>
            Insert sm0 ''a'' ''1'' st1 = Inr st2 \<and>
            Insert sm0 ''a'' ''2'' st2 = Inr st3 \<and> st3 = st2 \<and>
            Get sm0 ''a'' st3 = Inr (h, True) \<and> Value h st3 = Inr ''1'')"
proof (intro conjI allI impI)
  show "\<exists>h. Get sm k st = Inr (h, k \<in> set (keys st sm))"
    using assms by (cases "k \<in> set (keys st sm)") (simp_all add: Get_present Get_absent)
  show "Insert sm k v st = Inr st" if "k \<in> set (keys st sm)"
    using assms that by (simp add: Insert_valid)
  show "\<exists>st'. Insert sm k v st = Inr st' \<and> st' = appended st sm k v \<and>
          valid_StringMap st' sm \<and>
          elems st' sm = elems st sm @ [Some (length (skvs st))] \<and>
          skvs st' = skvs st @ [\<lparr>otlp_Key = k, otlp_Value = v\<rparr>] \<and>
          entries st' sm = entries st sm @ [(k, v)]" if "k \<notin> set (keys st sm)"
    using assms that
    by (simp add: Insert_valid valid_appended elems_appended skvs_appended entries_appended)
next
  fix st0 :: store
  define sm0 where "sm0 = \<lparr>StringMap.orig = Some (length (slices st0))\<rparr>"
  define st1 where "st1 = st0\<lparr>slices := slices st0 @ [[]]\<rparr>"
  define st2 where "st2 = appended st1 sm0 ''a'' ''1''"
  have new: "NewStringMap [] st0 = Inr (sm0, st1)"
    by (simp add: NewStringMap_empty sm0_def st1_def)
  have v1: "valid_StringMap st1 sm0" unfolding sm0_def st1_def by (rule valid_empty)
  have e1: "entries st1 sm0 = []" unfolding sm0_def st1_def by (rule entries_empty)
  have i1: "Insert sm0 ''a'' ''1'' st1 = Inr st2"
    using v1 e1 by (simp add: Insert_valid keys_def st2_def)
  have v2: "valid_StringMap st2 sm0" unfolding st2_def using v1 by (rule valid_appended)
  have e2: "entries st2 sm0 = [(''a'', ''1'')]"
    using v1 e1 by (simp add: st2_def entries_appended)
  have k2: "''a'' \<in> set (keys st2 sm0)" using e2 by (simp add: keys_def)
  have i2: "Insert sm0 ''a'' ''2'' st2 = Inr st2"
    using v2 k2 by (simp add: Insert_valid)
  obtain h where "Get sm0 ''a'' st2 = Inr (h, True)"
    "Value h st2 = Inr (snd (entries st2 sm0 ! first_index ''a'' (keys st2 sm0)))"
    using Get_present_pair [OF v2 k2] by blast
  moreover have "first_index ''a'' (keys st2 sm0) = 0"
    using e2 by (simp add: keys_def first_index_def)
  ultimately have "Get sm0 ''a'' st2 = Inr (h, True) \<and> Value h st2 = Inr ''1''"
    using e2 by simp
  with new e1 i1 i2
  show "\<exists>sm0 st1 st2 st3 h.
            NewStringMap [] st0 = Inr (sm0, st1) \<and> entries st1 sm0 = [] \<and>
            Insert sm0 ''a'' ''1'' st1 = Inr st2 \<and>
            Insert sm0 ''a'' ''2'' st2 = Inr st3 \<and> st3 = st2 \<and>
            Get sm0 ''a'' st3 = Inr (h, True) \<and> Value h st3 = Inr ''1''"
    by blast
qed

theorem Insert_no_overwrite_witness:
  "valid_StringMap \<lparr>akvs = [], skvs = [], slices = [[]], ils = []\<rparr> \<lparr>StringMap.orig = Some 0\<rparr> \<and>
   (\<exists>st'. Insert \<lparr>StringMap.orig = Some 0\<rparr> ''a'' ''1''
             \<lparr>akvs = [], skvs = [], slices = [[]], ils = []\<rparr> = Inr st' \<and>
          st' = \<lparr>akvs = [], skvs = [\<lparr>otlp_Key = ''a'', otlp_Value = ''1''\<rparr>],
                 slices = [[Some 0]], ils = []\<rparr> \<and>
          entries st' \<lparr>StringMap.orig = Some 0\<rparr> = [(''a'', ''1'')])"
proof -
  let ?S = "\<lparr>akvs = [], skvs = [], slices = [[]], ils = []\<rparr>"
  let ?M = "\<lparr>StringMap.orig = Some 0\<rparr>"
  have v: "valid_StringMap ?S ?M" by (simp add: valid_StringMap_def)
  have e: "entries ?S ?M = []" by (simp add: entries_def elems_def)
  have a: "appended ?S ?M ''a'' ''1'' =
      \<lparr>akvs = [], skvs = [\<lparr>otlp_Key = ''a'', otlp_Value = ''1''\<rparr>], slices = [[Some 0]], ils = []\<rparr>"
    by (simp add: appended_def elems_def)
  show ?thesis
    using v e a Insert_no_overwrite [OF v, of "''a''" "''1''"] by (simp add: keys_def)
qed

lemma Upsert_then_Get:
  assumes "valid_StringMap st sm"
  shows "\<exists>st' h. Upsert sm k v st = Inr st' \<and> valid_StringMap st' sm \<and>
           Get sm k st' = Inr (h, True) \<and> Value h st' = Inr v"
proof (cases "k \<in> set (keys st sm)")
  case True
  let ?i = "first_index k (keys st sm)"
  let ?st' = "updated st (elems st sm ! ?i) v"
  have i: "?i < length (elems st sm)" using True by (rule first_index_elems)
  have v': "valid_StringMap ?st' sm" using assms by (simp add: valid_updated)
  have k': "keys ?st' sm = keys st sm" using assms i by (rule keys_updated)
  have "snd (entries ?st' sm ! ?i) = v"
    using assms i by (simp add: entries_updated length_entries)
  moreover obtain h where "Get sm k ?st' = Inr (h, True)"
    "Value h ?st' = Inr (snd (entries ?st' sm ! first_index k (keys ?st' sm)))"
    using Get_present_pair [OF v', of k] True k' by auto
  ultimately show ?thesis
    using assms True v' k' by (simp add: Upsert_valid)
next
  case False
  let ?st' = "appended st sm k v"
  have v': "valid_StringMap ?st' sm" using assms by (rule valid_appended)
  have k': "keys ?st' sm = keys st sm @ [k]" using assms by (rule keys_appended)
  have fi: "first_index k (keys ?st' sm) = length (entries st sm)"
    using first_index_snoc [OF False] by (simp add: k' length_keys length_entries)
  have "snd (entries ?st' sm ! length (entries st sm)) = v"
    using assms by (simp add: entries_appended)
  moreover obtain h where "Get sm k ?st' = Inr (h, True)"
    "Value h ?st' = Inr (snd (entries ?st' sm ! first_index k (keys ?st' sm)))"
    using Get_present_pair [OF v', of k] k' by auto
  ultimately show ?thesis
    using assms False v' fi by (simp add: Upsert_valid)
qed

text \<open>
  Claim C7. On a valid map, when \<^verbatim>\<open>Get\<close> finds the key, \<^verbatim>\<open>Upsert\<close> sets the value of the
  record the first matching element points to and leaves the slice as it is, so that the
  pair at that index becomes \<open>(k, v)\<close> and every other pair stays; when it does not,
  \<^verbatim>\<open>Upsert\<close> appends a new pair \<open>(k, v)\<close> at the end. And on every valid map, upserting
  \<open>("a", "1")\<close> and then \<open>("a", "2")\<close> leaves \<^verbatim>\<open>Get("a")\<close> finding the value \<open>"2"\<close>.
\<close>

theorem Upsert_update_or_insert:
  assumes "valid_StringMap st sm"
  shows "(\<exists>h. Get sm k st = Inr (h, k \<in> set (keys st sm))) \<and>
         (k \<in> set (keys st sm) \<longrightarrow>
            (\<exists>st'. Upsert sm k v st = Inr st' \<and>
                   st' = updated st (elems st sm ! first_index k (keys st sm)) v \<and>
                   valid_StringMap st' sm \<and> elems st' sm = elems st sm \<and>
                   entries st' sm = (entries st sm)[first_index k (keys st sm) := (k, v)])) \<and>
         (k \<notin> set (keys st sm) \<longrightarrow>
            (\<exists>st'. Upsert sm k v st = Inr st' \<and> st' = appended st sm k v \<and>
                   valid_StringMap st' sm \<and>
                   elems st' sm = elems st sm @ [Some (length (skvs st))] \<and>
                   entries st' sm = entries st sm @ [(k, v)])) \<and>
         (\<exists>st1 st2 h. Upsert sm ''a'' ''1'' st = Inr st1 \<and> Upsert sm ''a'' ''2'' st1 = Inr st2 \<and>
            Get sm ''a'' st2 = Inr (h, True) \<and> Value h st2 = Inr ''2'')"
proof (intro conjI impI)
  show "\<exists>h. Get sm k st = Inr (h, k \<in> set (keys st sm))"
    using assms by (cases "k \<in> set (keys st sm)") (simp_all add: Get_present Get_absent)
  show "\<exists>st'. Upsert sm k v st = Inr st' \<and>
          st' = updated st (elems st sm ! first_index k (keys st sm)) v \<and>
          valid_StringMap st' sm \<and> elems st' sm = elems st sm \<and>
          entries st' sm = (entries st sm)[first_index k (keys st sm) := (k, v)]"
    if k: "k \<in> set (keys st sm)"
  proof -
    have i: "first_index k (keys st sm) < length (elems st sm)" using k by (rule first_index_elems)
    have "fst (entries st sm ! first_index k (keys st sm)) = k"
      using first_index_nth [OF k] i by (simp add: keys_def length_entries)
    then show ?thesis
      using assms k i by (simp add: Upsert_valid valid_updated elems_updated entries_updated)
  qed
  show "\<exists>st'. Upsert sm k v st = Inr st' \<and> st' = appended st sm k v \<and>
          valid_StringMap st' sm \<and>
          elems st' sm = elems st sm @ [Some (length (skvs st))] \<and>
          entries st' sm = entries st sm @ [(k, v)]" if "k \<notin> set (keys st sm)"
    using assms that
    by (simp add: Upsert_valid valid_appended elems_appended entries_appended)
  show "\<exists>st1 st2 h. Upsert sm ''a'' ''1'' st = Inr st1 \<and> Upsert sm ''a'' ''2'' st1 = Inr st2 \<and>
            Get sm ''a'' st2 = Inr (h, True) \<and> Value h st2 = Inr ''2''"
  proof -
    obtain st1 where 1: "Upsert sm ''a'' ''1'' st = Inr st1" "valid_StringMap st1 sm"
      using Upsert_then_Get [OF assms, of "''a''" "''1''"] by blast
    obtain st2 h where "Upsert sm ''a'' ''2'' st1 = Inr st2"
      "Get sm ''a'' st2 = Inr (h, True)" "Value h st2 = Inr ''2''"
      using Upsert_then_Get [OF 1(2), of "''a''" "''2''"] by blast
    with 1 show ?thesis by blast
  qed
qed

theorem Upsert_update_or_insert_witness:
  "valid_StringMap \<lparr>akvs = [], skvs = [\<lparr>otlp_Key = ''a'', otlp_Value = ''1''\<rparr>],
                    slices = [[Some 0]], ils = []\<rparr> \<lparr>StringMap.orig = Some 0\<rparr> \<and>
   ''a'' \<in> set (keys \<lparr>akvs = [], skvs = [\<lparr>otlp_Key = ''a'', otlp_Value = ''1''\<rparr>],
                    slices = [[Some 0]], ils = []\<rparr> \<lparr>StringMap.orig = Some 0\<rparr>) \<and>
   Upsert \<lparr>StringMap.orig = Some 0\<rparr> ''a'' ''2''
      \<lparr>akvs = [], skvs = [\<lparr>otlp_Key = ''a'', otlp_Value = ''1''\<rparr>], slices = [[Some 0]], ils = []\<rparr> =
     Inr \<lparr>akvs = [], skvs = [\<lparr>otlp_Key = ''a'', otlp_Value = ''2''\<rparr>], slices = [[Some 0]], ils = []\<rparr>"
proof -
  let ?S = "\<lparr>akvs = [], skvs = [\<lparr>otlp_Key = ''a'', otlp_Value = ''1''\<rparr>], slices = [[Some 0]], ils = []\<rparr>"
  let ?M = "\<lparr>StringMap.orig = Some 0\<rparr>"
  have v: "valid_StringMap ?S ?M" by (simp add: valid_StringMap_def valid_ptr_def)
  have k: "keys ?S ?M = [''a'']" by (simp add: keys_def entries_def elems_def pair_at_def)
  have u: "updated ?S (elems ?S ?M ! first_index ''a'' (keys ?S ?M)) ''2'' =
      \<lparr>akvs = [], skvs = [\<lparr>otlp_Key = ''a'', otlp_Value = ''2''\<rparr>], slices = [[Some 0]], ils = []\<rparr>"
    by (simp add: k first_index_def updated_def elems_def)
  show ?thesis
    using v k u Upsert_update_or_insert [OF v, of "''a''" "''2''"] by simp
qed

subsection \<open>Delete\<close>

lemma length_swap_remove: "length (swap_remove i xs) = length xs - 1"
  by (simp add: swap_remove_def)

lemma map_swap_remove: "xs \<noteq> [] \<Longrightarrow> map f (swap_remove i xs) = swap_remove i (map f xs)"
  by (simp add: swap_remove_def take_map flip: map_update)

lemma swap_remove_last: "Suc i = length xs \<Longrightarrow> swap_remove i xs = butlast xs"
proof -
  assume i: "Suc i = length xs"
  then have "xs[i := xs ! (length xs - 1)] = xs"
    by (metis diff_Suc_1 list_update_id)
  then show ?thesis by (simp add: swap_remove_def butlast_conv_take)
qed

lemma swap_remove_inner:
  assumes "Suc i < length xs"
  shows "swap_remove i xs = (butlast xs)[i := last xs]"
proof -
  have "xs \<noteq> []" using assms by auto
  then have "last xs = xs ! (length xs - 1)" by (rule last_conv_nth)
  then show ?thesis
    using assms by (simp add: swap_remove_def butlast_conv_take take_update_swap)
qed

lemma set_swap_remove: "set (swap_remove i xs) \<subseteq> set xs"
proof (cases "xs = []")
  case True
  then show ?thesis by (simp add: swap_remove_def)
next
  case False
  have "set (take (length xs - 1) (xs[i := xs ! (length xs - 1)])) \<subseteq> set (xs[i := xs ! (length xs - 1)])"
    by (rule set_take_subset)
  also have "\<dots> \<subseteq> insert (xs ! (length xs - 1)) (set xs)"
    by (rule set_update_subset_insert)
  also have "\<dots> = set xs" using False by (simp add: insert_absorb)
  finally show ?thesis by (simp add: swap_remove_def)
qed

lemma distinct_swap_remove:
  assumes "distinct xs" and "i < length xs"
  shows "distinct (swap_remove i xs) \<and> xs ! i \<notin> set (swap_remove i xs)"
proof (cases "Suc i = length xs")
  case True
  then have xs: "xs \<noteq> []" and i: "i = length xs - 1" by auto
  have "xs = butlast xs @ [last xs]" using xs by simp
  then have "last xs \<notin> set (butlast xs)"
    using assms(1) by (metis distinct_append distinct_butlast disjoint_iff list.set_intros(1) not_distinct_conv_prefix)
  moreover have "xs ! i = last xs" using xs i by (simp add: last_conv_nth)
  moreover have "swap_remove i xs = butlast xs" using True by (rule swap_remove_last)
  ultimately show ?thesis
    using assms(1) by (simp add: distinct_butlast)
next
  case False
  then have i: "Suc i < length xs" using assms(2) by simp
  then have xs: "xs \<noteq> []" by auto
  have app: "xs = butlast xs @ [last xs]" using xs by simp
  have d: "distinct (butlast xs)" and l: "last xs \<notin> set (butlast xs)"
    using assms(1) app by (metis distinct_append distinct_singleton disjoint_iff list.set_intros(1) distinct.simps(2) distinct1_rotate rotate1.simps(2))+
  have ib: "i < length (butlast xs)" using i by simp
  have bi: "butlast xs ! i = xs ! i" using ib by (simp add: nth_butlast)
  have ne: "xs ! i \<noteq> last xs" using l bi ib by (metis nth_mem)
  have "distinct ((butlast xs)[i := last xs])"
    using d l by (simp add: distinct_list_update)
  moreover have "xs ! i \<notin> set ((butlast xs)[i := last xs])"
  proof
    assume "xs ! i \<in> set ((butlast xs)[i := last xs])"
    then obtain j where j: "j < length (butlast xs)" "((butlast xs)[i := last xs]) ! j = xs ! i"
      by (auto simp: in_set_conv_nth)
    show False
    proof (cases "j = i")
      case True
      with j ib ne show False by simp
    next
      case False
      with j have eq: "butlast xs ! j = butlast xs ! i" using bi by simp
      have "j = i" using nth_eq_iff_index_eq [OF d j(1) ib] eq by blast
      with False show False by simp
    qed
  qed
  ultimately show ?thesis using i by (simp add: swap_remove_inner)
qed

lemma elems_removed:
  "valid_StringMap st sm \<Longrightarrow> elems (removed st sm i) sm = swap_remove i (elems st sm)"
  by (auto simp: removed_def elems_def dest!: valid_StringMap_orig valid_ptr_Some)

lemma skvs_removed: "skvs (removed st sm i) = skvs st"
  by (simp add: removed_def)

lemma entries_removed:
  assumes "valid_StringMap st sm" and "i < length (elems st sm)"
  shows "entries (removed st sm i) sm = swap_remove i (entries st sm)"
proof -
  have "elems st sm \<noteq> []" using assms(2) by auto
  then show ?thesis
    using assms(1) by (simp add: entries_def elems_removed skvs_removed map_swap_remove)
qed

lemma keys_removed:
  assumes "valid_StringMap st sm" and "i < length (elems st sm)"
  shows "keys (removed st sm i) sm = swap_remove i (keys st sm)"
proof -
  have "entries st sm \<noteq> []" using assms(2) by (auto simp: entries_def)
  then show ?thesis
    using assms by (simp add: keys_def entries_removed map_swap_remove)
qed

lemma valid_removed:
  assumes "valid_StringMap st sm" and "i < length (elems st sm)"
  shows "valid_StringMap (removed st sm i) sm"
proof -
  obtain x where x: "StringMap.orig sm = Some x" "x < length (slices st)"
    using assms(1) by (auto dest!: valid_StringMap_orig valid_ptr_Some)
  have e: "slices (removed st sm i) ! x = swap_remove i (elems st sm)"
    using x by (simp add: removed_def)
  have "list_all (valid_ptr (skvs st)) (swap_remove i (elems st sm))"
    using valid_StringMap_elems [OF assms(1)] set_swap_remove [of i "elems st sm"]
    by (auto simp: list_all_iff)
  moreover have "distinct (swap_remove i (elems st sm))"
    using distinct_swap_remove [OF valid_StringMap_distinct [OF assms(1)] assms(2)] by simp
  ultimately show ?thesis
    using x e by (simp add: valid_StringMap_def skvs_removed) (simp add: removed_def)
qed

lemma first_index_Cons:
  "first_index k (a # ks) = (if a = k then 0 else Suc (first_index k ks))"
  by (simp add: first_index_def)

lemma Delete_loop_scan:
  assumes "valid_StringMap st sm" and "elems st sm = pre @ rest"
  shows "Delete_loop st sm (length pre) rest k =
           (if k \<in> set (map (\<lambda>p. fst (pair_at (skvs st) p)) rest)
            then Inr (True, removed st sm
                   (length pre + first_index k (map (\<lambda>p. fst (pair_at (skvs st) p)) rest)))
            else Inr (False, st))"
  using assms(2)
proof (induction rest arbitrary: pre)
  case Nil
  then show ?case by simp
next
  case (Cons a rest)
  have a: "valid_ptr (skvs st) a"
    using valid_StringMap_elems [OF assms(1)] Cons.prems by simp
  show ?case
  proof (cases "otlp_Key (skvs st ! the a) = k")
    case True
    have len: "length pre < length (elems st sm)" using Cons.prems by simp
    have ne: "elems st sm \<noteq> []" using Cons.prems by simp
    have "modify (\<lambda>s. take (length s - 1) (s[length pre := s ! (length s - 1)]))
            (StringMap.orig sm) (slices st) =
          Inr ((slices st)[the (StringMap.orig sm) := swap_remove (length pre) (elems st sm)])"
      using assms(1)
      by (simp add: modify_valid valid_StringMap_orig swap_remove_def elems_def)
    then show ?thesis
      using True a len ne assms(1)
      by (simp add: load_valid load_slice pair_at_def first_index_Cons removed_def)
  next
    case False
    have "elems st sm = (pre @ [a]) @ rest" using Cons.prems by simp
    from Cons.IH [OF this] False a show ?thesis
      by (simp add: load_valid pair_at_def first_index_Cons)
  qed
qed

lemma Delete_valid:
  assumes "valid_StringMap st sm"
  shows "Delete sm k st =
           (if k \<in> set (keys st sm)
            then Inr (True, removed st sm (first_index k (keys st sm)))
            else Inr (False, st))"
  using Delete_loop_scan [OF assms, of "[]" "elems st sm" k] assms
  by (simp add: Delete_def load_slice keys_eq)

lemma Len_valid: "valid_StringMap st sm \<Longrightarrow> Len sm st = Inr (length (entries st sm))"
  by (simp add: Len_def load_slice length_entries)

lemma nth_swap_remove:
  "m < length xs - 1 \<Longrightarrow>
   swap_remove i xs ! m = (if m = i then xs ! (length xs - 1) else xs ! m)"
  by (simp add: swap_remove_def nth_list_update)

lemma swap_remove_mem:
  assumes "i < length xs"
  shows "x \<in> set (swap_remove i xs) \<longleftrightarrow> (\<exists>j<length xs. j \<noteq> i \<and> xs ! j = x)"
proof
  assume "x \<in> set (swap_remove i xs)"
  then obtain m where m: "m < length xs - 1" "swap_remove i xs ! m = x"
    by (auto simp: in_set_conv_nth length_swap_remove)
  show "\<exists>j<length xs. j \<noteq> i \<and> xs ! j = x"
  proof (cases "m = i")
    case True
    then have "xs ! (length xs - 1) = x" using m by (simp add: nth_swap_remove)
    moreover have "length xs - 1 \<noteq> i" "length xs - 1 < length xs" using m True by simp_all
    ultimately show ?thesis by blast
  next
    case False
    then have "xs ! m = x" using m by (simp add: nth_swap_remove)
    moreover have "m < length xs" using m by simp
    ultimately show ?thesis using False by blast
  qed
next
  assume "\<exists>j<length xs. j \<noteq> i \<and> xs ! j = x"
  then obtain j where j: "j < length xs" "j \<noteq> i" "xs ! j = x" by blast
  show "x \<in> set (swap_remove i xs)"
  proof (cases "j < length xs - 1")
    case True
    then have "swap_remove i xs ! j = x" using j by (simp add: nth_swap_remove)
    then show ?thesis using True by (metis length_swap_remove nth_mem)
  next
    case False
    then have jl: "j = length xs - 1" using j by simp
    then have il: "i < length xs - 1" using assms j by simp
    then have "swap_remove i xs ! i = x" using j jl by (simp add: nth_swap_remove)
    then show ?thesis using il by (metis length_swap_remove nth_mem)
  qed
qed

text \<open>
  Claim C3, as amended: on a valid map, \<^verbatim>\<open>Delete(k)\<close> of a present key stores the last
  element of the sequence at the index of the first entry with key \<open>k\<close>, cuts the sequence
  by one and returns true: the resulting store is \<open>removed\<close> at that index, the map stays
  valid and \<^verbatim>\<open>Len\<close> goes down by exactly one. Afterwards \<^verbatim>\<open>Get(k)\<close> finds the key exactly
  when another entry of the sequence had key \<open>k\<close>; so it returns \<open>(nil, false)\<close> whenever
  the keys were pairwise distinct, as they are in every map made by \<^verbatim>\<open>NewStringMap\<close> and
  the methods. \<^verbatim>\<open>Delete(k)\<close> of an absent key returns false and the store unchanged.
\<close>

theorem Delete_swap_remove:
  assumes "valid_StringMap st sm"
  shows "(k \<in> set (keys st sm) \<longrightarrow>
            (\<exists>st'. Delete sm k st = Inr (True, st') \<and>
                   st' = removed st sm (first_index k (keys st sm)) \<and>
                   valid_StringMap st' sm \<and>
                   elems st' sm = swap_remove (first_index k (keys st sm)) (elems st sm) \<and>
                   entries st' sm = swap_remove (first_index k (keys st sm)) (entries st sm) \<and>
                   Len sm st = Inr (length (entries st sm)) \<and>
                   Len sm st' = Inr (length (entries st sm) - 1) \<and>
                   0 < length (entries st sm) \<and>
                   (\<exists>h. Get sm k st' =
                      Inr (h, \<exists>j<length (keys st sm).
                                j \<noteq> first_index k (keys st sm) \<and> keys st sm ! j = k)) \<and>
                   (distinct (keys st sm) \<longrightarrow>
                      Get sm k st' = Inr (\<lparr>StringKeyValue.orig = None\<rparr>, False)))) \<and>
         (k \<notin> set (keys st sm) \<longrightarrow> Delete sm k st = Inr (False, st))"
proof (intro conjI impI)
  show "Delete sm k st = Inr (False, st)" if "k \<notin> set (keys st sm)"
    using assms that by (simp add: Delete_valid)
  show "\<exists>st'. Delete sm k st = Inr (True, st') \<and>
           st' = removed st sm (first_index k (keys st sm)) \<and>
           valid_StringMap st' sm \<and>
           elems st' sm = swap_remove (first_index k (keys st sm)) (elems st sm) \<and>
           entries st' sm = swap_remove (first_index k (keys st sm)) (entries st sm) \<and>
           Len sm st = Inr (length (entries st sm)) \<and>
           Len sm st' = Inr (length (entries st sm) - 1) \<and>
           0 < length (entries st sm) \<and>
           (\<exists>h. Get sm k st' =
              Inr (h, \<exists>j<length (keys st sm).
                        j \<noteq> first_index k (keys st sm) \<and> keys st sm ! j = k)) \<and>
           (distinct (keys st sm) \<longrightarrow>
              Get sm k st' = Inr (\<lparr>StringKeyValue.orig = None\<rparr>, False))"
    if k: "k \<in> set (keys st sm)"
  proof -
    let ?i = "first_index k (keys st sm)"
    let ?st' = "removed st sm ?i"
    have i: "?i < length (elems st sm)" using k by (rule first_index_elems)
    have ik: "?i < length (keys st sm)" using i by (simp add: length_keys)
    have v': "valid_StringMap ?st' sm" using assms i by (rule valid_removed)
    have e': "entries ?st' sm = swap_remove ?i (entries st sm)" using assms i by (rule entries_removed)
    have k': "keys ?st' sm = swap_remove ?i (keys st sm)" using assms i by (rule keys_removed)
    have pos: "0 < length (entries st sm)"
      using i by (cases "elems st sm") (simp_all add: length_entries)
    have mem: "k \<in> set (keys ?st' sm) \<longleftrightarrow>
        (\<exists>j<length (keys st sm). j \<noteq> ?i \<and> keys st sm ! j = k)"
      unfolding k' using ik by (rule swap_remove_mem)
    have again: "\<exists>h. Get sm k ?st' =
        Inr (h, \<exists>j<length (keys st sm). j \<noteq> ?i \<and> keys st sm ! j = k)"
    proof (cases "k \<in> set (keys ?st' sm)")
      case True
      then show ?thesis using mem Get_present [OF v' True] by auto
    next
      case False
      then show ?thesis using mem Get_absent [OF v' False] by auto
    qed
    have gone: "Get sm k ?st' = Inr (\<lparr>StringKeyValue.orig = None\<rparr>, False)"
      if d: "distinct (keys st sm)"
    proof -
      have "keys st sm ! ?i \<notin> set (swap_remove ?i (keys st sm))"
        using distinct_swap_remove [OF d ik] by simp
      then have "k \<notin> set (keys ?st' sm)"
        using first_index_nth [OF k] by (simp add: k')
      with v' show ?thesis by (rule Get_absent)
    qed
    have del: "Delete sm k st = Inr (True, ?st')" using assms k by (simp add: Delete_valid)
    have el: "elems ?st' sm = swap_remove ?i (elems st sm)" using assms by (rule elems_removed)
    have l0: "Len sm st = Inr (length (entries st sm))" using assms by (rule Len_valid)
    have l1: "Len sm ?st' = Inr (length (entries st sm) - 1)"
      using v' by (simp add: Len_valid e' length_swap_remove)
    show ?thesis
      using del v' el e' l0 l1 pos again gone by (intro exI [of _ ?st'] conjI impI) simp_all
  qed
qed

theorem Delete_swap_remove_witness:
  "valid_StringMap
     \<lparr>akvs = [], skvs = [\<lparr>otlp_Key = ''a'', otlp_Value = ''1''\<rparr>, \<lparr>otlp_Key = ''b'', otlp_Value = ''2''\<rparr>,
                        \<lparr>otlp_Key = ''c'', otlp_Value = ''3''\<rparr>],
      slices = [[Some 0, Some 1, Some 2]], ils = []\<rparr> \<lparr>StringMap.orig = Some 0\<rparr> \<and>
   Delete \<lparr>StringMap.orig = Some 0\<rparr> ''a''
     \<lparr>akvs = [], skvs = [\<lparr>otlp_Key = ''a'', otlp_Value = ''1''\<rparr>, \<lparr>otlp_Key = ''b'', otlp_Value = ''2''\<rparr>,
                        \<lparr>otlp_Key = ''c'', otlp_Value = ''3''\<rparr>],
      slices = [[Some 0, Some 1, Some 2]], ils = []\<rparr> =
   Inr (True,
     \<lparr>akvs = [], skvs = [\<lparr>otlp_Key = ''a'', otlp_Value = ''1''\<rparr>, \<lparr>otlp_Key = ''b'', otlp_Value = ''2''\<rparr>,
                        \<lparr>otlp_Key = ''c'', otlp_Value = ''3''\<rparr>],
      slices = [[Some 2, Some 1]], ils = []\<rparr>) \<and>
   Get \<lparr>StringMap.orig = Some 0\<rparr> ''a''
     \<lparr>akvs = [], skvs = [\<lparr>otlp_Key = ''a'', otlp_Value = ''1''\<rparr>, \<lparr>otlp_Key = ''b'', otlp_Value = ''2''\<rparr>,
                        \<lparr>otlp_Key = ''c'', otlp_Value = ''3''\<rparr>],
      slices = [[Some 2, Some 1]], ils = []\<rparr> = Inr (\<lparr>StringKeyValue.orig = None\<rparr>, False)"
proof -
  let ?S = "\<lparr>akvs = [], skvs = [\<lparr>otlp_Key = ''a'', otlp_Value = ''1''\<rparr>, \<lparr>otlp_Key = ''b'', otlp_Value = ''2''\<rparr>,
                        \<lparr>otlp_Key = ''c'', otlp_Value = ''3''\<rparr>],
      slices = [[Some 0, Some 1, Some 2]], ils = []\<rparr>"
  let ?M = "\<lparr>StringMap.orig = Some 0\<rparr>"
  have v: "valid_StringMap ?S ?M" by (simp add: valid_StringMap_def valid_ptr_def)
  have k: "keys ?S ?M = [''a'', ''b'', ''c'']"
    by (simp add: keys_def entries_def elems_def pair_at_def)
  have r: "removed ?S ?M (first_index ''a'' (keys ?S ?M)) =
      \<lparr>akvs = [], skvs = [\<lparr>otlp_Key = ''a'', otlp_Value = ''1''\<rparr>, \<lparr>otlp_Key = ''b'', otlp_Value = ''2''\<rparr>,
                        \<lparr>otlp_Key = ''c'', otlp_Value = ''3''\<rparr>],
      slices = [[Some 2, Some 1]], ils = []\<rparr>"
    unfolding k by (simp add: first_index_def removed_def elems_def swap_remove_def)
  show ?thesis
    using v k r Delete_swap_remove [OF v, of "''a''"] by simp
qed

text \<open>
  The claim as it stands does not hold of every map: \<^verbatim>\<open>newStringMap\<close> wraps any sequence,
  and in one with two entries of key \<open>a\<close> the call \<^verbatim>\<open>Delete("a")\<close> returns true, removes
  the first of them, and \<^verbatim>\<open>Get("a")\<close> then finds the second.
\<close>

theorem Delete_repeated_key_counterexample:
  "valid_StringMap
     \<lparr>akvs = [], skvs = [\<lparr>otlp_Key = ''a'', otlp_Value = ''1''\<rparr>, \<lparr>otlp_Key = ''a'', otlp_Value = ''2''\<rparr>],
      slices = [[Some 0, Some 1]], ils = []\<rparr> (newStringMap (Some 0)) \<and>
   Delete (newStringMap (Some 0)) ''a''
     \<lparr>akvs = [], skvs = [\<lparr>otlp_Key = ''a'', otlp_Value = ''1''\<rparr>, \<lparr>otlp_Key = ''a'', otlp_Value = ''2''\<rparr>],
      slices = [[Some 0, Some 1]], ils = []\<rparr> =
   Inr (True,
     \<lparr>akvs = [], skvs = [\<lparr>otlp_Key = ''a'', otlp_Value = ''1''\<rparr>, \<lparr>otlp_Key = ''a'', otlp_Value = ''2''\<rparr>],
      slices = [[Some 1]], ils = []\<rparr>) \<and>
   Get (newStringMap (Some 0)) ''a''
     \<lparr>akvs = [], skvs = [\<lparr>otlp_Key = ''a'', otlp_Value = ''1''\<rparr>, \<lparr>otlp_Key = ''a'', otlp_Value = ''2''\<rparr>],
      slices = [[Some 1]], ils = []\<rparr> = Inr (\<lparr>StringKeyValue.orig = Some 1\<rparr>, True) \<and>
   Value \<lparr>StringKeyValue.orig = Some 1\<rparr>
     \<lparr>akvs = [], skvs = [\<lparr>otlp_Key = ''a'', otlp_Value = ''1''\<rparr>, \<lparr>otlp_Key = ''a'', otlp_Value = ''2''\<rparr>],
      slices = [[Some 1]], ils = []\<rparr> = Inr ''2''"
  by (simp add: valid_StringMap_def valid_ptr_def newStringMap_def Delete_def Get_def load_def
      modify_def Value_def)

subsection \<open>Sort\<close>

lemma stable_sort_unique:
  assumes "mset ys = mset xs"
    and "\<And>k. filter (\<lambda>x. f x = k) ys = filter (\<lambda>x. f x = k) xs"
    and "sorted (map f ys)"
  shows "ys = sort_key f xs"
proof -
  have "sort_key f xs = ys"
  proof (rule properties_for_sort_key)
    show "mset ys = mset xs" by (rule assms(1))
    show "sorted (map f ys)" by (rule assms(3))
    fix k
    assume "k \<in> set ys"
    have "(\<lambda>x. f k = f x) = (\<lambda>x. f x = f k)" by auto
    then show "filter (\<lambda>x. f k = f x) ys = filter (\<lambda>x. f k = f x) xs"
      using assms(2) [of "f k"] by simp
  qed
  then show ?thesis by simp
qed

lemma load_all_valid:
  "list_all (valid_ptr h) s \<Longrightarrow> load_all h s = Inr (map (\<lambda>p. h ! the p) s)"
  by (induction s) (simp_all add: load_valid)

lemma insort_key_map:
  "insort_key f (m x) (map m ys) = map m (insort_key (\<lambda>y. f (m y)) x ys)"
  by (induction ys) simp_all

lemma sort_key_map: "sort_key f (map m xs) = map m (sort_key (\<lambda>y. f (m y)) xs)"
  by (induction xs) (simp_all add: insort_key_map)

lemma sort_zip:
  "map fst (sort_key (\<lambda>(a, r). f r) (zip s (map g s))) = sort_key (\<lambda>a. f (g a)) s"
proof -
  have "zip s (map g s) = map (\<lambda>a. (a, g a)) s"
    by (induction s) simp_all
  then show ?thesis by (simp add: sort_key_map o_def)
qed

lemma sort_key_short:
  assumes "length xs < 2"
  shows "sort_key f xs = xs"
proof (cases xs)
  case Nil
  then show ?thesis by simp
next
  case (Cons a list)
  then have "list = []" using assms by simp
  then show ?thesis using Cons by simp
qed

lemma store_slices_id: "x < length (slices st) \<Longrightarrow> st\<lparr>slices := (slices st)[x := slices st ! x]\<rparr> = st"
  by simp

lemma Sort_valid:
  assumes "valid_StringMap st sm"
  shows "Sort sm st = Inr (sm, sorted_store st sm)"
proof -
  obtain x where x: "StringMap.orig sm = Some x" "x < length (slices st)"
    using assms by (auto dest!: valid_StringMap_orig valid_ptr_Some)
  show ?thesis
  proof (cases "length (elems st sm) < 2")
    case True
    then have "sorted_store st sm = st"
      using x by (simp add: sorted_store_def sort_key_short elems_def)
    then show ?thesis using assms True by (simp add: Sort_def load_slice)
  next
    case False
    have "map fst (sort_key (\<lambda>(a, r). otlp_Key r)
             (zip (elems st sm) (map (\<lambda>p. skvs st ! the p) (elems st sm)))) =
          sort_key (\<lambda>p. fst (pair_at (skvs st) p)) (elems st sm)"
      by (simp add: sort_zip pair_at_def)
    then show ?thesis
      using assms False
      by (simp add: Sort_def load_slice load_all_valid valid_StringMap_elems modify_valid
          valid_StringMap_orig sorted_store_def)
  qed
qed

lemma elems_sorted_store:
  "valid_StringMap st sm \<Longrightarrow>
   elems (sorted_store st sm) sm = sort_key (\<lambda>p. fst (pair_at (skvs st) p)) (elems st sm)"
  by (auto simp: sorted_store_def elems_def dest!: valid_StringMap_orig valid_ptr_Some)

lemma skvs_sorted_store: "skvs (sorted_store st sm) = skvs st"
  by (simp add: sorted_store_def)

lemma entries_sorted_store:
  "valid_StringMap st sm \<Longrightarrow> entries (sorted_store st sm) sm = sort_key fst (entries st sm)"
  by (simp add: entries_def elems_sorted_store skvs_sorted_store sort_key_map)

lemma valid_sorted_store:
  assumes "valid_StringMap st sm"
  shows "valid_StringMap (sorted_store st sm) sm"
proof -
  obtain x where x: "StringMap.orig sm = Some x" "x < length (slices st)"
    using assms by (auto dest!: valid_StringMap_orig valid_ptr_Some)
  have e: "slices (sorted_store st sm) ! x = sort_key (\<lambda>p. fst (pair_at (skvs st) p)) (elems st sm)"
    using x by (simp add: sorted_store_def)
  have "list_all (valid_ptr (skvs st)) (sort_key (\<lambda>p. fst (pair_at (skvs st) p)) (elems st sm))"
    using valid_StringMap_elems [OF assms] by (simp add: list_all_iff)
  moreover have "distinct (sort_key (\<lambda>p. fst (pair_at (skvs st) p)) (elems st sm))"
    using valid_StringMap_distinct [OF assms] by (simp add: distinct_sort)
  ultimately show ?thesis
    using x e by (simp add: valid_StringMap_def skvs_sorted_store) (simp add: sorted_store_def)
qed

lemma sort_key_canonical:
  assumes "distinct (map f xs)" and "distinct (map f ys)" and "set xs = set ys"
  shows "sort_key f xs = sort_key f ys"
proof (rule map_sorted_distinct_set_unique [where f = f])
  show "inj_on f (set (sort_key f xs) \<union> set (sort_key f ys))"
    using assms by (simp add: distinct_map)
  show "sorted (map f (sort_key f xs))" "sorted (map f (sort_key f ys))"
    by (rule sorted_sort_key)+
  show "distinct (map f (sort_key f xs))"
    using assms(1) by (simp add: distinct_map distinct_sort)
  show "distinct (map f (sort_key f ys))"
    using assms(2) by (simp add: distinct_map distinct_sort)
  show "set (sort_key f xs) = set (sort_key f ys)"
    using assms(3) by simp
qed

lemma Sort_sorted_store:
  assumes "valid_StringMap st sm"
  shows "Sort sm (sorted_store st sm) = Inr (sm, sorted_store st sm)"
proof -
  let ?st' = "sorted_store st sm"
  have v': "valid_StringMap ?st' sm" using assms by (rule valid_sorted_store)
  obtain x where x: "StringMap.orig sm = Some x" "x < length (slices st)"
    using assms by (auto dest!: valid_StringMap_orig valid_ptr_Some)
  have s: "sorted (map (\<lambda>p. fst (pair_at (skvs st) p)) (elems ?st' sm))"
    using assms by (simp add: elems_sorted_store sorted_sort_key)
  have "sort_key (\<lambda>p. fst (pair_at (skvs ?st') p)) (elems ?st' sm) = elems ?st' sm"
    using s by (simp add: skvs_sorted_store sort_key_id_if_sorted)
  then have "sorted_store ?st' sm = ?st'"
    using x by (simp add: sorted_store_def [of ?st'] elems_def)
  then show ?thesis using Sort_valid [OF v'] by simp
qed

subsection \<open>NewStringMap\<close>

lemma modify_at_length: "modify f (Some (length xs)) (xs @ r # ys) = Inr (xs @ f r # ys)"
  by (simp add: modify_def)

lemma NewStringMap_loop_eq:
  "length hdone = base + ix \<Longrightarrow> length ws = ix \<Longrightarrow> length htodo = length kvs \<Longrightarrow>
   length todo = length kvs \<Longrightarrow> skvs st = hdone @ htodo \<Longrightarrow>
   NewStringMap_loop base kvs ix (ws @ todo) st =
     Inr (ws @ map (\<lambda>i. Some (base + i)) [ix..<ix + length kvs],
          st\<lparr>skvs := hdone @ map (\<lambda>(k, v). \<lparr>otlp_Key = k, otlp_Value = v\<rparr>) kvs\<rparr>)"
proof (induction kvs arbitrary: ix ws todo hdone htodo st)
  case Nil
  then show ?case by simp
next
  case (Cons kv rest)
  obtain k v where kv: "kv = (k, v)" by (cases kv)
  obtain t todo' where todo: "todo = t # todo'" using Cons.prems(4) by (cases todo) simp_all
  obtain r htodo' where htodo: "htodo = r # htodo'" using Cons.prems(3) by (cases htodo) simp_all
  let ?a = "Some (base + ix)"
  let ?r = "\<lparr>otlp_Key = k, otlp_Value = v\<rparr>"
  let ?st = "st\<lparr>skvs := (hdone @ [?r]) @ htodo'\<rparr>"
  have w1: "(ws @ todo)[ix := ?a] = (ws @ [?a]) @ todo'"
    unfolding todo Cons.prems(2) [symmetric] by simp
  have at: "((ws @ [?a]) @ todo') ! ix = ?a"
    unfolding Cons.prems(2) [symmetric] by simp
  have m1: "modify (\<lambda>r. r\<lparr>otlp_Key := k\<rparr>) ?a (skvs st) = Inr (hdone @ r\<lparr>otlp_Key := k\<rparr> # htodo')"
    using modify_at_length [of "\<lambda>r. r\<lparr>otlp_Key := k\<rparr>" hdone r htodo']
    by (simp add: Cons.prems(1) Cons.prems(5) htodo)
  have m2: "modify (\<lambda>r. r\<lparr>otlp_Value := v\<rparr>) ?a (hdone @ r\<lparr>otlp_Key := k\<rparr> # htodo') =
      Inr ((hdone @ [?r]) @ htodo')"
    using modify_at_length [of "\<lambda>r. r\<lparr>otlp_Value := v\<rparr>" hdone "r\<lparr>otlp_Key := k\<rparr>" htodo']
    by (simp add: Cons.prems(1))
  have ih: "NewStringMap_loop base rest (Suc ix) ((ws @ [?a]) @ todo') ?st =
      Inr ((ws @ [?a]) @ map (\<lambda>i. Some (base + i)) [Suc ix..<Suc ix + length rest],
           ?st\<lparr>skvs := (hdone @ [?r]) @ map (\<lambda>(k, v). \<lparr>otlp_Key = k, otlp_Value = v\<rparr>) rest\<rparr>)"
    using Cons.prems by (intro Cons.IH) (simp_all add: todo htodo)
  have len: "\<not> length (ws @ todo) \<le> ix" using Cons.prems(2) by (simp add: todo)
  have step: "NewStringMap_loop base (kv # rest) ix (ws @ todo) st =
      NewStringMap_loop base rest (Suc ix) ((ws @ [?a]) @ todo') ?st"
    unfolding kv using len by (simp add: w1 at m1 m2 del: append_assoc)
  have up: "[ix..<ix + length (kv # rest)] = ix # [Suc ix..<Suc ix + length rest]"
    using upt_conv_Cons [of ix "ix + length (kv # rest)"] by (simp del: upt_Suc)
  show ?case unfolding step ih up by (simp add: kv del: upt_Suc)
qed

lemma NewStringMap_eq:
  "NewStringMap attrMap st = Inr (\<lparr>StringMap.orig = Some (length (slices st))\<rparr>, created st attrMap)"
proof (cases "attrMap = []")
  case True
  then show ?thesis by (simp add: NewStringMap_def created_def)
next
  case False
  let ?n = "length attrMap"
  let ?st1 = "st\<lparr>skvs := skvs st @ replicate ?n zero_StringKeyValue\<rparr>"
  have "NewStringMap_loop (length (skvs st)) attrMap 0 ([] @ replicate ?n None) ?st1 =
      Inr ([] @ map (\<lambda>i. Some (length (skvs st) + i)) [0..<0 + length attrMap],
           ?st1\<lparr>skvs := skvs st @ map (\<lambda>(k, v). \<lparr>otlp_Key = k, otlp_Value = v\<rparr>) attrMap\<rparr>)"
    by (rule NewStringMap_loop_eq [where htodo = "replicate ?n zero_StringKeyValue"]) simp_all
  then show ?thesis using False by (simp add: NewStringMap_def created_def Let_def)
qed

lemma elems_created:
  "elems (created st attrMap) \<lparr>StringMap.orig = Some (length (slices st))\<rparr> =
     map (\<lambda>i. Some (length (skvs st) + i)) [0..<length attrMap]"
  by (simp add: created_def elems_def)

lemma entries_created:
  "entries (created st attrMap) \<lparr>StringMap.orig = Some (length (slices st))\<rparr> = attrMap"
proof (rule nth_equalityI)
  show "length (entries (created st attrMap) \<lparr>StringMap.orig = Some (length (slices st))\<rparr>) =
      length attrMap"
    by (simp add: length_entries elems_created)
next
  fix i
  assume "i < length (entries (created st attrMap) \<lparr>StringMap.orig = Some (length (slices st))\<rparr>)"
  then have i: "i < length attrMap" by (simp add: length_entries elems_created)
  then show "entries (created st attrMap) \<lparr>StringMap.orig = Some (length (slices st))\<rparr> ! i =
      attrMap ! i"
    by (simp add: entries_def elems_created) (simp add: pair_at_def created_def split: prod.splits)
qed

lemma valid_created:
  "valid_StringMap (created st attrMap) \<lparr>StringMap.orig = Some (length (slices st))\<rparr>"
  by (simp add: valid_StringMap_def created_def list_all_iff valid_ptr_def distinct_map inj_on_def)

subsection \<open>Unique keys\<close>

lemma unique_keys_valid: "unique_keys st sm \<Longrightarrow> valid_StringMap st sm"
  by (simp add: unique_keys_def)

lemma unique_keys_distinct: "unique_keys st sm \<Longrightarrow> distinct (keys st sm)"
  by (simp add: unique_keys_def)

lemma keys_updated_any:
  assumes "valid_StringMap st sm" and "valid_ptr (skvs st) p"
  shows "keys (updated st p v) sm = keys st sm"
proof -
  have "fst (pair_at (skvs (updated st p v)) q) = fst (pair_at (skvs st) q)"
    if "q \<in> set (elems st sm)" for q
    using pair_at_updated [OF assms(2) list_all_valid_ptrD [OF valid_StringMap_elems [OF assms(1)] that]]
    by simp
  then show ?thesis by (simp add: keys_def entries_def elems_updated)
qed

lemma unique_updated:
  "unique_keys st sm \<Longrightarrow> valid_ptr (skvs st) p \<Longrightarrow> unique_keys (updated st p v) sm"
  by (simp add: unique_keys_def valid_updated keys_updated_any)

lemma unique_appended:
  "unique_keys st sm \<Longrightarrow> k \<notin> set (keys st sm) \<Longrightarrow> unique_keys (appended st sm k v) sm"
  by (simp add: unique_keys_def valid_appended keys_appended)

lemma unique_removed:
  assumes "unique_keys st sm" and "i < length (elems st sm)"
  shows "unique_keys (removed st sm i) sm"
proof -
  have v: "valid_StringMap st sm" using assms(1) by (rule unique_keys_valid)
  have "distinct (swap_remove i (keys st sm))"
    using distinct_swap_remove [OF unique_keys_distinct [OF assms(1)], of i] assms(2)
    by (simp add: length_keys)
  then show ?thesis
    using v assms(2) by (simp add: unique_keys_def valid_removed keys_removed)
qed

lemma unique_sorted:
  assumes "unique_keys st sm"
  shows "unique_keys (sorted_store st sm) sm"
proof -
  have v: "valid_StringMap st sm" using assms by (rule unique_keys_valid)
  have "distinct (map fst (sort_key fst (entries st sm)))"
    using unique_keys_distinct [OF assms] by (simp add: keys_def distinct_map)
  then show ?thesis
    using v by (simp add: unique_keys_def valid_sorted_store keys_def entries_sorted_store)
qed

lemma other_slice:
  assumes "valid_StringMap st sm'" and "StringMap.orig sm = Some x"
    and "StringMap.orig sm' \<noteq> StringMap.orig sm"
  shows "valid_StringMap (st\<lparr>slices := (slices st)[x := s]\<rparr>) sm'"
    and "elems (st\<lparr>slices := (slices st)[x := s]\<rparr>) sm' = elems st sm'"
  using assms by (auto simp: valid_StringMap_def elems_def split: option.splits)

lemma other_skvs_append:
  assumes "valid_StringMap st sm'"
  shows "valid_StringMap (st\<lparr>skvs := skvs st @ h'\<rparr>) sm'"
    and "entries (st\<lparr>skvs := skvs st @ h'\<rparr>) sm' = entries st sm'"
proof -
  have e: "elems (st\<lparr>skvs := skvs st @ h'\<rparr>) sm' = elems st sm'" by (simp add: elems_def)
  have a: "list_all (valid_ptr (skvs st)) (elems st sm')"
    using assms by (rule valid_StringMap_elems)
  then have "list_all (valid_ptr (skvs st @ h')) (elems st sm')"
    by (simp add: list_all_iff valid_ptr_append)
  then show "valid_StringMap (st\<lparr>skvs := skvs st @ h'\<rparr>) sm'"
    using assms by (simp add: valid_StringMap_def elems_def split: option.splits)
  show "entries (st\<lparr>skvs := skvs st @ h'\<rparr>) sm' = entries st sm'"
    using a by (simp add: entries_def e map_pair_at_append)
qed

lemma other_appended:
  assumes "unique_keys st sm'" and "valid_StringMap st sm"
    and "StringMap.orig sm' \<noteq> StringMap.orig sm"
  shows "unique_keys (appended st sm k v) sm'"
proof -
  obtain x where x: "StringMap.orig sm = Some x"
    using assms(2) by (auto dest!: valid_StringMap_orig valid_ptr_Some)
  let ?st1 = "st\<lparr>skvs := skvs st @ [\<lparr>otlp_Key = k, otlp_Value = v\<rparr>]\<rparr>"
  have v1: "valid_StringMap ?st1 sm'" and e1: "entries ?st1 sm' = entries st sm'"
    using other_skvs_append [OF unique_keys_valid [OF assms(1)]] by simp_all
  have eq: "appended st sm k v =
      ?st1\<lparr>slices := (slices ?st1)[x := elems st sm @ [Some (length (skvs st))]]\<rparr>"
    by (simp add: appended_def x)
  have "valid_StringMap (appended st sm k v) sm'"
    unfolding eq using v1 x assms(3) by (rule other_slice(1))
  moreover have "elems (appended st sm k v) sm' = elems ?st1 sm'"
    unfolding eq using v1 x assms(3) by (rule other_slice(2))
  then have "entries (appended st sm k v) sm' = entries ?st1 sm'"
    by (simp add: entries_def appended_def)
  ultimately show ?thesis
    using assms(1) e1 by (simp add: unique_keys_def keys_def)
qed

lemma other_removed:
  assumes "unique_keys st sm'" and "valid_StringMap st sm"
    and "StringMap.orig sm' \<noteq> StringMap.orig sm"
  shows "unique_keys (removed st sm i) sm'"
proof -
  obtain x where x: "StringMap.orig sm = Some x"
    using assms(2) by (auto dest!: valid_StringMap_orig valid_ptr_Some)
  have eq: "removed st sm i = st\<lparr>slices := (slices st)[x := swap_remove i (elems st sm)]\<rparr>"
    by (simp add: removed_def x)
  have "valid_StringMap (removed st sm i) sm'"
    unfolding eq using unique_keys_valid [OF assms(1)] x assms(3) by (rule other_slice(1))
  moreover have "elems (removed st sm i) sm' = elems st sm'"
    unfolding eq using unique_keys_valid [OF assms(1)] x assms(3) by (rule other_slice(2))
  then have "entries (removed st sm i) sm' = entries st sm'"
    by (simp add: entries_def removed_def)
  ultimately show ?thesis
    using assms(1) by (simp add: unique_keys_def keys_def)
qed

lemma other_sorted:
  assumes "unique_keys st sm'" and "valid_StringMap st sm"
    and "StringMap.orig sm' \<noteq> StringMap.orig sm"
  shows "unique_keys (sorted_store st sm) sm'"
proof -
  obtain x where x: "StringMap.orig sm = Some x"
    using assms(2) by (auto dest!: valid_StringMap_orig valid_ptr_Some)
  have eq: "sorted_store st sm =
      st\<lparr>slices := (slices st)[x := sort_key (\<lambda>p. fst (pair_at (skvs st) p)) (elems st sm)]\<rparr>"
    by (simp add: sorted_store_def x)
  have "valid_StringMap (sorted_store st sm) sm'"
    unfolding eq using unique_keys_valid [OF assms(1)] x assms(3) by (rule other_slice(1))
  moreover have "elems (sorted_store st sm) sm' = elems st sm'"
    unfolding eq using unique_keys_valid [OF assms(1)] x assms(3) by (rule other_slice(2))
  then have "entries (sorted_store st sm) sm' = entries st sm'"
    by (simp add: entries_def sorted_store_def)
  ultimately show ?thesis
    using assms(1) by (simp add: unique_keys_def keys_def)
qed

lemma StringMap_eq: "StringMap.orig sm' = StringMap.orig sm \<Longrightarrow> sm' = (sm :: StringMap)"
  by simp

lemma apply_call_unique:
  assumes inv: "\<forall>m \<in> M. unique_keys st m" and sm: "sm \<in> M"
  shows "\<exists>st'. apply_call sm c st = Inr st' \<and> (\<forall>m \<in> M. unique_keys st' m)"
proof -
  have u: "unique_keys st sm" using inv sm by simp
  have v: "valid_StringMap st sm" using u by (rule unique_keys_valid)
  have app: "\<forall>m \<in> M. unique_keys (appended st sm k v) m" if "k \<notin> set (keys st sm)" for k v
  proof
    fix m assume m: "m \<in> M"
    show "unique_keys (appended st sm k v) m"
    proof (cases "StringMap.orig m = StringMap.orig sm")
      case True
      then have "m = sm" by (rule StringMap_eq)
      then show ?thesis using u that by (simp add: unique_appended)
    next
      case False
      with inv m v show ?thesis by (simp add: other_appended)
    qed
  qed
  have upd: "\<forall>m \<in> M. unique_keys (updated st (elems st sm ! first_index k (keys st sm)) v) m"
    if "k \<in> set (keys st sm)" for k v
    using inv elem_valid [OF v first_index_elems [OF that]] by (simp add: unique_updated)
  have rem: "\<forall>m \<in> M. unique_keys (removed st sm (first_index k (keys st sm))) m"
    if "k \<in> set (keys st sm)" for k
  proof
    fix m assume m: "m \<in> M"
    show "unique_keys (removed st sm (first_index k (keys st sm))) m"
    proof (cases "StringMap.orig m = StringMap.orig sm")
      case True
      then have "m = sm" by (rule StringMap_eq)
      then show ?thesis using u first_index_elems [OF that] by (simp add: unique_removed)
    next
      case False
      with inv m v show ?thesis by (simp add: other_removed)
    qed
  qed
  have srt: "\<forall>m \<in> M. unique_keys (sorted_store st sm) m"
  proof
    fix m assume m: "m \<in> M"
    show "unique_keys (sorted_store st sm) m"
    proof (cases "StringMap.orig m = StringMap.orig sm")
      case True
      then have "m = sm" by (rule StringMap_eq)
      then show ?thesis using u by (simp add: unique_sorted)
    next
      case False
      with inv m v show ?thesis by (simp add: other_sorted)
    qed
  qed
  show ?thesis
  proof (cases c)
    case (CallInsert k v)
    then show ?thesis using v inv app [of k v] by (simp add: Insert_valid)
  next
    case (CallUpdate k v)
    then show ?thesis using v inv upd [of k v] by (simp add: Update_valid)
  next
    case (CallUpsert k v)
    then show ?thesis using v app [of k v] upd [of k v] by (simp add: Upsert_valid)
  next
    case (CallDelete k)
    then show ?thesis using v inv rem [of k] by (simp add: Delete_valid)
  next
    case CallSort
    then show ?thesis using v srt by (simp add: Sort_valid)
  qed
qed

lemma run_unique:
  "\<forall>m \<in> M. unique_keys st m \<Longrightarrow> \<forall>(m, c) \<in> set calls. m \<in> M \<Longrightarrow>
   \<exists>st'. run calls st = Inr st' \<and> (\<forall>m \<in> M. unique_keys st' m)"
proof (induction calls arbitrary: st)
  case Nil
  then show ?case by simp
next
  case (Cons mc rest)
  obtain sm c where mc: "mc = (sm, c)" by (cases mc)
  have "sm \<in> M" using Cons.prems(2) by (simp add: mc)
  with Cons.prems(1) obtain st1 where
    st1: "apply_call sm c st = Inr st1" "\<forall>m \<in> M. unique_keys st1 m"
    using apply_call_unique by blast
  have "\<forall>(m, c) \<in> set rest. m \<in> M" using Cons.prems(2) by simp
  with st1(2) obtain st' where "run rest st1 = Inr st'" "\<forall>m \<in> M. unique_keys st' m"
    using Cons.IH by blast
  then show ?case using st1(1) by (simp add: mc)
qed

lemma created_unique:
  assumes "\<forall>m \<in> M. unique_keys st m" and "distinct (map fst attrMap)"
  shows "\<lparr>StringMap.orig = Some (length (slices st))\<rparr> \<notin> M"
    and "\<forall>m \<in> insert \<lparr>StringMap.orig = Some (length (slices st))\<rparr> M.
           unique_keys (created st attrMap) m"
proof -
  let ?sm = "\<lparr>StringMap.orig = Some (length (slices st))\<rparr>"
  show new: "?sm \<notin> M"
  proof
    assume "?sm \<in> M"
    then have "valid_StringMap st ?sm" using assms(1) by (simp add: unique_keys_def)
    then show False by (simp add: valid_StringMap_def)
  qed
  have "unique_keys (created st attrMap) ?sm"
    using assms(2) by (simp add: unique_keys_def valid_created keys_def entries_created)
  moreover have "unique_keys (created st attrMap) m" if "m \<in> M" for m
  proof -
    have u: "unique_keys st m" using assms(1) that by simp
    let ?st1 = "st\<lparr>skvs := skvs st @ map (\<lambda>(k, v). \<lparr>otlp_Key = k, otlp_Value = v\<rparr>) attrMap\<rparr>"
    have v1: "valid_StringMap ?st1 m" and e1: "entries ?st1 m = entries st m"
      using other_skvs_append [OF unique_keys_valid [OF u]] by simp_all
    obtain y where y: "StringMap.orig m = Some y" "y < length (slices st)"
      using unique_keys_valid [OF u] by (auto dest!: valid_StringMap_orig valid_ptr_Some)
    have "valid_StringMap (created st attrMap) m"
      using v1 y by (simp add: valid_StringMap_def created_def nth_append)
    moreover have "entries (created st attrMap) m = entries ?st1 m"
      using y by (simp add: entries_def elems_def created_def nth_append)
    ultimately show ?thesis using u e1 by (simp add: unique_keys_def keys_def)
  qed
  ultimately show "\<forall>m \<in> insert ?sm M. unique_keys (created st attrMap) m" by simp
qed

lemma run_inserts:
  "valid_StringMap st sm \<Longrightarrow> distinct (keys st sm @ map fst xs) \<Longrightarrow>
   \<exists>st'. run (map (\<lambda>(k, v). (sm, CallInsert k v)) xs) st = Inr st' \<and>
         valid_StringMap st' sm \<and> entries st' sm = entries st sm @ xs"
proof (induction xs arbitrary: st)
  case Nil
  then show ?case by simp
next
  case (Cons kv rest)
  obtain k v where kv: "kv = (k, v)" by (cases kv)
  let ?st1 = "appended st sm k v"
  have fresh: "k \<notin> set (keys st sm)" using Cons.prems(2) by (auto simp: kv)
  have step: "Insert sm k v st = Inr ?st1"
    using Cons.prems(1) fresh by (simp add: Insert_valid)
  have v1: "valid_StringMap ?st1 sm" using Cons.prems(1) by (rule valid_appended)
  have e1: "entries ?st1 sm = entries st sm @ [(k, v)]"
    using Cons.prems(1) by (rule entries_appended)
  have "distinct (keys ?st1 sm @ map fst rest)"
    using Cons.prems(2) by (simp add: keys_def e1 kv)
  with v1 obtain st' where
    "run (map (\<lambda>(k, v). (sm, CallInsert k v)) rest) ?st1 = Inr st'"
    "valid_StringMap st' sm" "entries st' sm = entries ?st1 sm @ rest"
    using Cons.IH by blast
  then show ?case using step by (simp add: kv e1)
qed

lemma sorted_entries_canonical:
  assumes "unique_keys st sm" and "unique_keys st2 sm2"
    and "set (entries st2 sm2) = set (entries st sm)"
  shows "entries (sorted_store st2 sm2) sm2 = entries (sorted_store st sm) sm"
proof -
  have "sort_key fst (entries st2 sm2) = sort_key fst (entries st sm)"
    using assms by (intro sort_key_canonical) (simp_all add: unique_keys_def keys_def)
  then show ?thesis
    using assms(1,2) by (simp add: entries_sorted_store unique_keys_def)
qed

lemma inserts_unique:
  assumes "unique_keys st sm"
  shows "\<exists>st'. run (map (\<lambda>(k, v). (sm, CallInsert k v)) xs) st = Inr st' \<and> unique_keys st' sm \<and>
               (distinct (keys st sm @ map fst xs) \<longrightarrow> entries st' sm = entries st sm @ xs)"
proof -
  have "\<forall>m \<in> {sm}. unique_keys st m" using assms by simp
  moreover have "\<forall>(m, c) \<in> set (map (\<lambda>(k, v). (sm, CallInsert k v)) xs). m \<in> {sm}" by auto
  ultimately obtain st' where
    st': "run (map (\<lambda>(k, v). (sm, CallInsert k v)) xs) st = Inr st'" "\<forall>m \<in> {sm}. unique_keys st' m"
    using run_unique by blast
  have "entries st' sm = entries st sm @ xs" if "distinct (keys st sm @ map fst xs)"
    using run_inserts [OF unique_keys_valid [OF assms] that] st'(1) by simp
  then show ?thesis using st' by simp
qed

lemma Sort_two:
  assumes "unique_keys a1 ma" and "unique_keys b1 mb"
  shows "\<exists>a2 b2. Sort ma a1 = Inr (ma, a2) \<and> Sort mb b1 = Inr (mb, b2) \<and>
           (set (entries a1 ma) = set (entries b1 mb) \<longrightarrow> entries a2 ma = entries b2 mb)"
  using assms sorted_entries_canonical [OF assms(2) assms(1)]
  by (simp add: Sort_valid unique_keys_valid)

lemma SetValue_unique:
  assumes "\<forall>m \<in> M. unique_keys st m" and "valid_ptr (skvs st) p"
  shows "\<exists>st'. SetValue \<lparr>StringKeyValue.orig = p\<rparr> v st = Inr st' \<and> (\<forall>m \<in> M. unique_keys st' m)"
  using assms by (simp add: SetValue_valid unique_updated)

lemma NewStringKeyValue_unique:
  assumes "\<forall>m \<in> M. unique_keys st m"
  shows "\<forall>m \<in> M. unique_keys (snd (NewStringKeyValue k v st)) m"
proof
  fix m assume "m \<in> M"
  then have u: "unique_keys st m" using assms by simp
  show "unique_keys (snd (NewStringKeyValue k v st)) m"
    using u other_skvs_append [OF unique_keys_valid [OF u], of "[\<lparr>otlp_Key = k, otlp_Value = v\<rparr>]"]
    by (simp add: NewStringKeyValue_def unique_keys_def keys_def)
qed

lemma NewStringMap_unique:
  assumes "\<forall>m \<in> M. unique_keys st m" and "distinct (map fst attrMap)"
  shows "\<exists>sm st1. NewStringMap attrMap st = Inr (sm, st1) \<and> sm \<notin> M \<and>
           entries st1 sm = attrMap \<and> distinct (keys st1 sm) \<and>
           (\<forall>m \<in> insert sm M. unique_keys st1 m)"
proof -
  let ?sm = "\<lparr>StringMap.orig = Some (length (slices st))\<rparr>"
  have "NewStringMap attrMap st = Inr (?sm, created st attrMap)" by (rule NewStringMap_eq)
  moreover have "?sm \<notin> M" using assms by (rule created_unique(1))
  moreover have "entries (created st attrMap) ?sm = attrMap" by (rule entries_created)
  moreover have "distinct (keys (created st attrMap) ?sm)"
    using assms(2) by (simp add: keys_def entries_created)
  moreover have "\<forall>m \<in> insert ?sm M. unique_keys (created st attrMap) m"
    using assms by (rule created_unique(2))
  ultimately show ?thesis by blast
qed

lemma methods_unique:
  assumes "\<forall>m \<in> M. unique_keys st m" and "sm \<in> M"
  shows "\<exists>st'. Insert sm k v st = Inr st' \<and> (\<forall>m \<in> M. unique_keys st' m)"
    and "\<exists>st'. Update sm k v st = Inr st' \<and> (\<forall>m \<in> M. unique_keys st' m)"
    and "\<exists>st'. Upsert sm k v st = Inr st' \<and> (\<forall>m \<in> M. unique_keys st' m)"
    and "\<exists>b st'. Delete sm k st = Inr (b, st') \<and> (\<forall>m \<in> M. unique_keys st' m)"
    and "\<exists>st'. Sort sm st = Inr (sm, st') \<and> (\<forall>m \<in> M. unique_keys st' m)"
proof -
  have v: "valid_StringMap st sm" using assms by (simp add: unique_keys_def)
  show "\<exists>st'. Insert sm k v st = Inr st' \<and> (\<forall>m \<in> M. unique_keys st' m)"
    using apply_call_unique [OF assms, of "CallInsert k v"] by simp
  show "\<exists>st'. Update sm k v st = Inr st' \<and> (\<forall>m \<in> M. unique_keys st' m)"
    using apply_call_unique [OF assms, of "CallUpdate k v"] by simp
  show "\<exists>st'. Upsert sm k v st = Inr st' \<and> (\<forall>m \<in> M. unique_keys st' m)"
    using apply_call_unique [OF assms, of "CallUpsert k v"] by simp
  show "\<exists>b st'. Delete sm k st = Inr (b, st') \<and> (\<forall>m \<in> M. unique_keys st' m)"
    using apply_call_unique [OF assms, of "CallDelete k"] v
    by (cases "k \<in> set (keys st sm)") (auto simp: Delete_valid)
  show "\<exists>st'. Sort sm st = Inr (sm, st') \<and> (\<forall>m \<in> M. unique_keys st' m)"
    using apply_call_unique [OF assms, of CallSort] v by (simp add: Sort_valid)
qed

text \<open>
  Claim C4. On a valid map \<^verbatim>\<open>Sort\<close> returns the map it was called on and the store
  \<open>sorted_store\<close>: only the map's slice is written, the records are untouched. The slice
  holds the same pointers, rearranged so that the keys ascend, and the elements with one
  and the same key \<open>k\<close> keep their order (the sort is stable); the entries are the entries
  before, sorted stably by key. \<^verbatim>\<open>Sort\<close> on the sorted store returns that store again. Every
  rearrangement \<open>s\<close> of the slice that is ascending by key and keeps the order of elements
  with equal keys is the slice \<^verbatim>\<open>Sort\<close> leaves, whatever the algorithm of the library. Two
  maps with unique keys that hold the same set of pairs have equal sequences of entries
  after \<^verbatim>\<open>Sort\<close>. That is so for stores built by inserting: from any two stores, two empty
  maps of \<^verbatim>\<open>NewStringMap\<close> filled by any runs \<open>xs\<close> and \<open>ys\<close> of \<^verbatim>\<open>Insert\<close> have unique keys
  (and hold exactly \<open>xs\<close> and \<open>ys\<close> when no key is inserted twice), and if they hold the
  same set of pairs, \<^verbatim>\<open>Sort\<close> leaves them with equal sequences of entries. A map returned
  by \<^verbatim>\<open>NewStringMap\<close> is valid with unique keys, and the methods keep it so (lemmas
  \<open>created_unique\<close> and \<open>apply_call_unique\<close>).
\<close>

theorem Sort_canonical:
  assumes "valid_StringMap st sm"
  shows "(\<exists>st'. Sort sm st = Inr (sm, st') \<and> st' = sorted_store st sm \<and>
            valid_StringMap st' sm \<and> skvs st' = skvs st \<and>
            mset (elems st' sm) = mset (elems st sm) \<and>
            entries st' sm = sort_key fst (entries st sm) \<and>
            sorted (keys st' sm) \<and>
            filter (\<lambda>p. fst (pair_at (skvs st) p) = k) (elems st' sm) =
              filter (\<lambda>p. fst (pair_at (skvs st) p) = k) (elems st sm) \<and>
            filter (\<lambda>e. fst e = k) (entries st' sm) = filter (\<lambda>e. fst e = k) (entries st sm) \<and>
            Sort sm st' = Inr (sm, st') \<and>
            (mset s = mset (elems st sm) \<and>
             sorted (map (\<lambda>p. fst (pair_at (skvs st) p)) s) \<and>
             (\<forall>k. filter (\<lambda>p. fst (pair_at (skvs st) p) = k) s =
                  filter (\<lambda>p. fst (pair_at (skvs st) p) = k) (elems st sm)) \<longrightarrow>
               s = elems st' sm) \<and>
            (unique_keys st sm \<and> unique_keys st2 sm2 \<and>
             set (entries st2 sm2) = set (entries st sm) \<longrightarrow>
               (\<exists>st2'. Sort sm2 st2 = Inr (sm2, st2') \<and> entries st2' sm2 = entries st' sm))) \<and>
         (\<exists>ma a0 mb b0 a1 b1 a2 b2.
            NewStringMap [] sta = Inr (ma, a0) \<and> NewStringMap [] stb = Inr (mb, b0) \<and>
            run (map (\<lambda>(k, v). (ma, CallInsert k v)) xs) a0 = Inr a1 \<and>
            run (map (\<lambda>(k, v). (mb, CallInsert k v)) ys) b0 = Inr b1 \<and>
            unique_keys a1 ma \<and> unique_keys b1 mb \<and>
            (distinct (map fst xs) \<longrightarrow> entries a1 ma = xs) \<and>
            (distinct (map fst ys) \<longrightarrow> entries b1 mb = ys) \<and>
            Sort ma a1 = Inr (ma, a2) \<and> Sort mb b1 = Inr (mb, b2) \<and>
            (set (entries a1 ma) = set (entries b1 mb) \<longrightarrow> entries a2 ma = entries b2 mb))"
proof (rule conjI)
  let ?st' = "sorted_store st sm"
  have s: "Sort sm st = Inr (sm, ?st')" using assms by (rule Sort_valid)
  have v: "valid_StringMap ?st' sm" using assms by (rule valid_sorted_store)
  have h: "skvs ?st' = skvs st" by (rule skvs_sorted_store)
  have el: "elems ?st' sm = sort_key (\<lambda>p. fst (pair_at (skvs st) p)) (elems st sm)"
    using assms by (rule elems_sorted_store)
  have e: "entries ?st' sm = sort_key fst (entries st sm)" using assms by (rule entries_sorted_store)
  have srt: "sorted (keys ?st' sm)" by (simp add: keys_def e sorted_sort_key)
  have stp: "filter (\<lambda>p. fst (pair_at (skvs st) p) = k) (elems ?st' sm) =
      filter (\<lambda>p. fst (pair_at (skvs st) p) = k) (elems st sm)"
    unfolding el by (rule sort_key_stable)
  have ste: "filter (\<lambda>e. fst e = k) (entries ?st' sm) = filter (\<lambda>e. fst e = k) (entries st sm)"
    unfolding e by (rule sort_key_stable)
  have idem: "Sort sm ?st' = Inr (sm, ?st')" using assms by (rule Sort_sorted_store)
  have can: "unique_keys st sm \<and> unique_keys st2 sm2 \<and>
      set (entries st2 sm2) = set (entries st sm) \<longrightarrow>
      (\<exists>st2'. Sort sm2 st2 = Inr (sm2, st2') \<and> entries st2' sm2 = entries ?st' sm)"
    using sorted_entries_canonical [of st sm st2 sm2]
    by (simp add: Sort_valid unique_keys_valid)
  have uniq: "mset s = mset (elems st sm) \<and>
      sorted (map (\<lambda>p. fst (pair_at (skvs st) p)) s) \<and>
      (\<forall>k. filter (\<lambda>p. fst (pair_at (skvs st) p) = k) s =
           filter (\<lambda>p. fst (pair_at (skvs st) p) = k) (elems st sm)) \<longrightarrow>
      s = elems ?st' sm"
    unfolding el using stable_sort_unique [of s "elems st sm" "\<lambda>p. fst (pair_at (skvs st) p)"]
    by blast
  show "\<exists>st'. Sort sm st = Inr (sm, st') \<and> st' = sorted_store st sm \<and>
            valid_StringMap st' sm \<and> skvs st' = skvs st \<and>
            mset (elems st' sm) = mset (elems st sm) \<and>
            entries st' sm = sort_key fst (entries st sm) \<and>
            sorted (keys st' sm) \<and>
            filter (\<lambda>p. fst (pair_at (skvs st) p) = k) (elems st' sm) =
              filter (\<lambda>p. fst (pair_at (skvs st) p) = k) (elems st sm) \<and>
            filter (\<lambda>e. fst e = k) (entries st' sm) = filter (\<lambda>e. fst e = k) (entries st sm) \<and>
            Sort sm st' = Inr (sm, st') \<and>
            (mset s = mset (elems st sm) \<and>
             sorted (map (\<lambda>p. fst (pair_at (skvs st) p)) s) \<and>
             (\<forall>k. filter (\<lambda>p. fst (pair_at (skvs st) p) = k) s =
                  filter (\<lambda>p. fst (pair_at (skvs st) p) = k) (elems st sm)) \<longrightarrow>
               s = elems st' sm) \<and>
            (unique_keys st sm \<and> unique_keys st2 sm2 \<and>
             set (entries st2 sm2) = set (entries st sm) \<longrightarrow>
               (\<exists>st2'. Sort sm2 st2 = Inr (sm2, st2') \<and> entries st2' sm2 = entries st' sm))"
    using s v h e srt stp ste idem can uniq
    by (intro exI [of _ ?st'] conjI) (simp_all add: el)
next
  let ?ma = "\<lparr>StringMap.orig = Some (length (slices sta))\<rparr>"
  let ?mb = "\<lparr>StringMap.orig = Some (length (slices stb))\<rparr>"
  let ?a0 = "created sta []" and ?b0 = "created stb []"
  have na: "NewStringMap [] sta = Inr (?ma, ?a0)" and nb: "NewStringMap [] stb = Inr (?mb, ?b0)"
    by (rule NewStringMap_eq)+
  have ua: "unique_keys ?a0 ?ma" and ub: "unique_keys ?b0 ?mb"
    by (simp_all add: unique_keys_def valid_created keys_def entries_created)
  have ka: "keys ?a0 ?ma = []" and kb: "keys ?b0 ?mb = []"
    by (simp_all add: keys_def entries_created)
  obtain a1 where a1: "run (map (\<lambda>(k, v). (?ma, CallInsert k v)) xs) ?a0 = Inr a1"
    "unique_keys a1 ?ma" "distinct (map fst xs) \<longrightarrow> entries a1 ?ma = xs"
    using inserts_unique [OF ua, of xs] by (auto simp: ka entries_created)
  obtain b1 where b1: "run (map (\<lambda>(k, v). (?mb, CallInsert k v)) ys) ?b0 = Inr b1"
    "unique_keys b1 ?mb" "distinct (map fst ys) \<longrightarrow> entries b1 ?mb = ys"
    using inserts_unique [OF ub, of ys] by (auto simp: kb entries_created)
  obtain a2 b2 where s2: "Sort ?ma a1 = Inr (?ma, a2)" "Sort ?mb b1 = Inr (?mb, b2)"
    "set (entries a1 ?ma) = set (entries b1 ?mb) \<longrightarrow> entries a2 ?ma = entries b2 ?mb"
    using Sort_two [OF a1(2) b1(2)] by blast
  show "\<exists>ma a0 mb b0 a1 b1 a2 b2.
            NewStringMap [] sta = Inr (ma, a0) \<and> NewStringMap [] stb = Inr (mb, b0) \<and>
            run (map (\<lambda>(k, v). (ma, CallInsert k v)) xs) a0 = Inr a1 \<and>
            run (map (\<lambda>(k, v). (mb, CallInsert k v)) ys) b0 = Inr b1 \<and>
            unique_keys a1 ma \<and> unique_keys b1 mb \<and>
            (distinct (map fst xs) \<longrightarrow> entries a1 ma = xs) \<and>
            (distinct (map fst ys) \<longrightarrow> entries b1 mb = ys) \<and>
            Sort ma a1 = Inr (ma, a2) \<and> Sort mb b1 = Inr (mb, b2) \<and>
            (set (entries a1 ma) = set (entries b1 mb) \<longrightarrow> entries a2 ma = entries b2 mb)"
    using na nb a1 b1 s2
    by (intro exI [of _ ?ma] exI [of _ ?a0] exI [of _ ?mb] exI [of _ ?b0] exI [of _ a1]
        exI [of _ b1] exI [of _ a2] exI [of _ b2] conjI)
qed

theorem Sort_canonical_witness:
  "valid_StringMap
     \<lparr>akvs = [], skvs = [\<lparr>otlp_Key = ''b'', otlp_Value = ''2''\<rparr>, \<lparr>otlp_Key = ''a'', otlp_Value = ''1''\<rparr>],
      slices = [[Some 0, Some 1]], ils = []\<rparr> \<lparr>StringMap.orig = Some 0\<rparr> \<and>
   NewStringMap [] empty_store =
     Inr (\<lparr>StringMap.orig = Some 0\<rparr>, \<lparr>akvs = [], skvs = [], slices = [[]], ils = []\<rparr>) \<and>
   run [(\<lparr>StringMap.orig = Some 0\<rparr>, CallInsert ''b'' ''2''),
        (\<lparr>StringMap.orig = Some 0\<rparr>, CallInsert ''a'' ''1'')]
     \<lparr>akvs = [], skvs = [], slices = [[]], ils = []\<rparr> =
     Inr \<lparr>akvs = [], skvs = [\<lparr>otlp_Key = ''b'', otlp_Value = ''2''\<rparr>, \<lparr>otlp_Key = ''a'', otlp_Value = ''1''\<rparr>],
          slices = [[Some 0, Some 1]], ils = []\<rparr> \<and>
   run [(\<lparr>StringMap.orig = Some 0\<rparr>, CallInsert ''a'' ''1''),
        (\<lparr>StringMap.orig = Some 0\<rparr>, CallInsert ''b'' ''2'')]
     \<lparr>akvs = [], skvs = [], slices = [[]], ils = []\<rparr> =
     Inr \<lparr>akvs = [], skvs = [\<lparr>otlp_Key = ''a'', otlp_Value = ''1''\<rparr>, \<lparr>otlp_Key = ''b'', otlp_Value = ''2''\<rparr>],
          slices = [[Some 0, Some 1]], ils = []\<rparr> \<and>
   Sort \<lparr>StringMap.orig = Some 0\<rparr>
     \<lparr>akvs = [], skvs = [\<lparr>otlp_Key = ''b'', otlp_Value = ''2''\<rparr>, \<lparr>otlp_Key = ''a'', otlp_Value = ''1''\<rparr>],
      slices = [[Some 0, Some 1]], ils = []\<rparr> =
     Inr (\<lparr>StringMap.orig = Some 0\<rparr>,
       \<lparr>akvs = [], skvs = [\<lparr>otlp_Key = ''b'', otlp_Value = ''2''\<rparr>, \<lparr>otlp_Key = ''a'', otlp_Value = ''1''\<rparr>],
        slices = [[Some 1, Some 0]], ils = []\<rparr>) \<and>
   Sort \<lparr>StringMap.orig = Some 0\<rparr>
     \<lparr>akvs = [], skvs = [\<lparr>otlp_Key = ''a'', otlp_Value = ''1''\<rparr>, \<lparr>otlp_Key = ''b'', otlp_Value = ''2''\<rparr>],
      slices = [[Some 0, Some 1]], ils = []\<rparr> =
     Inr (\<lparr>StringMap.orig = Some 0\<rparr>,
       \<lparr>akvs = [], skvs = [\<lparr>otlp_Key = ''a'', otlp_Value = ''1''\<rparr>, \<lparr>otlp_Key = ''b'', otlp_Value = ''2''\<rparr>],
        slices = [[Some 0, Some 1]], ils = []\<rparr>) \<and>
   entries
     \<lparr>akvs = [], skvs = [\<lparr>otlp_Key = ''b'', otlp_Value = ''2''\<rparr>, \<lparr>otlp_Key = ''a'', otlp_Value = ''1''\<rparr>],
      slices = [[Some 1, Some 0]], ils = []\<rparr> \<lparr>StringMap.orig = Some 0\<rparr> =
     [(''a'', ''1''), (''b'', ''2'')] \<and>
   elems
     \<lparr>akvs = [], skvs = [\<lparr>otlp_Key = ''b'', otlp_Value = ''2''\<rparr>, \<lparr>otlp_Key = ''a'', otlp_Value = ''1''\<rparr>],
      slices = [[Some 1, Some 0]], ils = []\<rparr> \<lparr>StringMap.orig = Some 0\<rparr> = [Some 1, Some 0] \<and>
   entries
     \<lparr>akvs = [], skvs = [\<lparr>otlp_Key = ''a'', otlp_Value = ''1''\<rparr>, \<lparr>otlp_Key = ''b'', otlp_Value = ''2''\<rparr>],
      slices = [[Some 0, Some 1]], ils = []\<rparr> \<lparr>StringMap.orig = Some 0\<rparr> =
     [(''a'', ''1''), (''b'', ''2'')]"
proof -
  let ?M = "\<lparr>StringMap.orig = Some 0\<rparr>"
  let ?A0 = "\<lparr>akvs = [], skvs = [], slices = [[]], ils = []\<rparr>"
  let ?A1 = "\<lparr>akvs = [], skvs = [\<lparr>otlp_Key = ''b'', otlp_Value = ''2''\<rparr>, \<lparr>otlp_Key = ''a'', otlp_Value = ''1''\<rparr>],
      slices = [[Some 0, Some 1]], ils = []\<rparr>"
  let ?B1 = "\<lparr>akvs = [], skvs = [\<lparr>otlp_Key = ''a'', otlp_Value = ''1''\<rparr>, \<lparr>otlp_Key = ''b'', otlp_Value = ''2''\<rparr>],
      slices = [[Some 0, Some 1]], ils = []\<rparr>"
  let ?A2 = "\<lparr>akvs = [], skvs = [\<lparr>otlp_Key = ''b'', otlp_Value = ''2''\<rparr>, \<lparr>otlp_Key = ''a'', otlp_Value = ''1''\<rparr>],
      slices = [[Some 1, Some 0]], ils = []\<rparr>"
  have v: "valid_StringMap ?A1 ?M" by (simp add: valid_StringMap_def valid_ptr_def)
  have ua: "unique_keys ?A1 ?M"
    by (simp add: unique_keys_def valid_StringMap_def valid_ptr_def keys_def entries_def
        elems_def pair_at_def)
  have ub: "unique_keys ?B1 ?M"
    by (simp add: unique_keys_def valid_StringMap_def valid_ptr_def keys_def entries_def
        elems_def pair_at_def)
  have same: "set (entries ?B1 ?M) = set (entries ?A1 ?M)"
    by (auto simp: entries_def elems_def pair_at_def)
  have n: "NewStringMap [] empty_store = Inr (?M, ?A0)"
    by (simp add: NewStringMap_def empty_store_def)
  have ra: "run [(?M, CallInsert ''b'' ''2''), (?M, CallInsert ''a'' ''1'')] ?A0 = Inr ?A1"
    by (simp add: Insert_def Get_def load_def modify_def append_new_def NewStringKeyValue_def)
  have rb: "run [(?M, CallInsert ''a'' ''1''), (?M, CallInsert ''b'' ''2'')] ?A0 = Inr ?B1"
    by (simp add: Insert_def Get_def load_def modify_def append_new_def NewStringKeyValue_def)
  have sa: "sorted_store ?A1 ?M = ?A2"
    by (simp add: sorted_store_def elems_def pair_at_def)
  have ea: "entries ?A2 ?M = [(''a'', ''1''), (''b'', ''2'')]"
    by (simp add: entries_def elems_def pair_at_def)
  have eb: "entries ?B1 ?M = [(''a'', ''1''), (''b'', ''2'')]"
    by (simp add: entries_def elems_def pair_at_def)
  note c = Sort_canonical [OF v, where ?st2.0 = ?B1 and ?sm2.0 = ?M and sta = empty_store
      and stb = empty_store and xs = "[(''b'', ''2''), (''a'', ''1'')]"
      and ys = "[(''a'', ''1''), (''b'', ''2'')]" and k = "''a''" and s = "[Some 1, Some 0]"]
  have hs: "mset [Some 1, Some 0] = mset (elems ?A1 ?M) \<and>
      sorted (map (\<lambda>p. fst (pair_at (skvs ?A1) p)) [Some 1, Some 0]) \<and>
      (\<forall>k. filter (\<lambda>p. fst (pair_at (skvs ?A1) p) = k) [Some 1, Some 0] =
           filter (\<lambda>p. fst (pair_at (skvs ?A1) p) = k) (elems ?A1 ?M))"
    by (simp add: elems_def pair_at_def)
  from c obtain st' where st': "Sort ?M ?A1 = Inr (?M, st')" "st' = sorted_store ?A1 ?M"
    and uniq: "mset [Some 1, Some 0] = mset (elems ?A1 ?M) \<and>
        sorted (map (\<lambda>p. fst (pair_at (skvs ?A1) p)) [Some 1, Some 0]) \<and>
        (\<forall>k. filter (\<lambda>p. fst (pair_at (skvs ?A1) p) = k) [Some 1, Some 0] =
             filter (\<lambda>p. fst (pair_at (skvs ?A1) p) = k) (elems ?A1 ?M)) \<longrightarrow>
        [Some 1, Some 0] = elems st' ?M"
    and can: "unique_keys ?A1 ?M \<and> unique_keys ?B1 ?M \<and>
        set (entries ?B1 ?M) = set (entries ?A1 ?M) \<longrightarrow>
        (\<exists>st2'. Sort ?M ?B1 = Inr (?M, st2') \<and> entries st2' ?M = entries st' ?M)"
    by blast
  have s1: "Sort ?M ?A1 = Inr (?M, ?A2)" using st' sa by simp
  have el: "elems ?A2 ?M = [Some 1, Some 0]" using uniq hs st'(2) sa by simp
  from can ua ub same obtain st2' where
    st2': "Sort ?M ?B1 = Inr (?M, st2')" "entries st2' ?M = entries st' ?M"
    by blast
  have "sorted_store ?B1 ?M = ?B1"
    by (simp add: sorted_store_def elems_def pair_at_def)
  then have s2: "Sort ?M ?B1 = Inr (?M, ?B1)"
    using Sort_valid [of ?B1 ?M] ub by (simp add: unique_keys_def)
  show ?thesis using v n ra rb s1 s2 ea eb el by simp
qed

text \<open>
  Claim C10. \<open>M\<close> is any set of maps that all have unique keys in the store (none, to
  begin with). \<^verbatim>\<open>NewStringMap\<close>, given the entries of a Go map in the order of the
  \<^verbatim>\<open>range\<close> (the keys of a Go map are distinct), returns a new map that holds these entries
  and has unique keys, and the maps of \<open>M\<close> keep theirs. Each of \<^verbatim>\<open>Insert\<close>, \<^verbatim>\<open>Update\<close>,
  \<^verbatim>\<open>Upsert\<close>, \<^verbatim>\<open>Delete\<close> and \<^verbatim>\<open>Sort\<close> on a map of \<open>M\<close> returns and leaves every map of \<open>M\<close>
  with unique keys; so do \<^verbatim>\<open>SetValue\<close> through any valid pair handle and
  \<^verbatim>\<open>NewStringKeyValue\<close>. Hence every run of calls of these methods on maps of \<open>M\<close> returns
  and leaves every map of \<open>M\<close> with unique keys: no sequence of them produces two entries
  with the same key.
\<close>

theorem unique_keys_invariant:
  assumes "\<forall>m \<in> M. unique_keys st m"
  shows "(distinct (map fst attrMap) \<longrightarrow>
            (\<exists>sm st1. NewStringMap attrMap st = Inr (sm, st1) \<and> sm \<notin> M \<and>
               entries st1 sm = attrMap \<and> distinct (keys st1 sm) \<and>
               (\<forall>m \<in> insert sm M. unique_keys st1 m))) \<and>
         (sm \<in> M \<longrightarrow>
            (\<exists>st'. Insert sm k v st = Inr st' \<and> (\<forall>m \<in> M. unique_keys st' m)) \<and>
            (\<exists>st'. Update sm k v st = Inr st' \<and> (\<forall>m \<in> M. unique_keys st' m)) \<and>
            (\<exists>st'. Upsert sm k v st = Inr st' \<and> (\<forall>m \<in> M. unique_keys st' m)) \<and>
            (\<exists>b st'. Delete sm k st = Inr (b, st') \<and> (\<forall>m \<in> M. unique_keys st' m)) \<and>
            (\<exists>st'. Sort sm st = Inr (sm, st') \<and> (\<forall>m \<in> M. unique_keys st' m))) \<and>
         (valid_ptr (skvs st) p \<longrightarrow>
            (\<exists>st'. SetValue \<lparr>StringKeyValue.orig = p\<rparr> v st = Inr st' \<and>
                   (\<forall>m \<in> M. unique_keys st' m))) \<and>
         (\<forall>m \<in> M. unique_keys (snd (NewStringKeyValue k v st)) m) \<and>
         ((\<forall>(m, c) \<in> set calls. m \<in> M) \<longrightarrow>
            (\<exists>st'. run calls st = Inr st' \<and> (\<forall>m \<in> M. unique_keys st' m)))"
proof (intro conjI impI)
  show "\<exists>sm st1. NewStringMap attrMap st = Inr (sm, st1) \<and> sm \<notin> M \<and>
           entries st1 sm = attrMap \<and> distinct (keys st1 sm) \<and>
           (\<forall>m \<in> insert sm M. unique_keys st1 m)"
    if "distinct (map fst attrMap)"
    using assms that by (rule NewStringMap_unique)
  show "\<exists>st'. Insert sm k v st = Inr st' \<and> (\<forall>m \<in> M. unique_keys st' m)" if "sm \<in> M"
    using assms that by (rule methods_unique(1))
  show "\<exists>st'. Update sm k v st = Inr st' \<and> (\<forall>m \<in> M. unique_keys st' m)" if "sm \<in> M"
    using assms that by (rule methods_unique(2))
  show "\<exists>st'. Upsert sm k v st = Inr st' \<and> (\<forall>m \<in> M. unique_keys st' m)" if "sm \<in> M"
    using assms that by (rule methods_unique(3))
  show "\<exists>b st'. Delete sm k st = Inr (b, st') \<and> (\<forall>m \<in> M. unique_keys st' m)" if "sm \<in> M"
    using assms that by (rule methods_unique(4))
  show "\<exists>st'. Sort sm st = Inr (sm, st') \<and> (\<forall>m \<in> M. unique_keys st' m)" if "sm \<in> M"
    using assms that by (rule methods_unique(5))
  show "\<exists>st'. SetValue \<lparr>StringKeyValue.orig = p\<rparr> v st = Inr st' \<and> (\<forall>m \<in> M. unique_keys st' m)"
    if "valid_ptr (skvs st) p"
    using assms that by (rule SetValue_unique)
  show "\<forall>m \<in> M. unique_keys (snd (NewStringKeyValue k v st)) m"
    using assms by (rule NewStringKeyValue_unique)
  show "\<exists>st'. run calls st = Inr st' \<and> (\<forall>m \<in> M. unique_keys st' m)"
    if "\<forall>(m, c) \<in> set calls. m \<in> M"
    using assms that by (rule run_unique)
qed

theorem unique_keys_invariant_witness:
  "distinct (map fst [(''a'', ''1''), (''b'', ''2'')]) \<and>
   NewStringMap [(''a'', ''1''), (''b'', ''2'')] empty_store =
     Inr (\<lparr>StringMap.orig = Some 0\<rparr>,
       \<lparr>akvs = [], skvs = [\<lparr>otlp_Key = ''a'', otlp_Value = ''1''\<rparr>, \<lparr>otlp_Key = ''b'', otlp_Value = ''2''\<rparr>],
        slices = [[Some 0, Some 1]], ils = []\<rparr>) \<and>
   unique_keys
     \<lparr>akvs = [], skvs = [\<lparr>otlp_Key = ''a'', otlp_Value = ''1''\<rparr>, \<lparr>otlp_Key = ''b'', otlp_Value = ''2''\<rparr>],
      slices = [[Some 0, Some 1]], ils = []\<rparr> \<lparr>StringMap.orig = Some 0\<rparr> \<and>
   valid_ptr [\<lparr>otlp_Key = ''a'', otlp_Value = ''1''\<rparr>, \<lparr>otlp_Key = ''b'', otlp_Value = ''2''\<rparr>] (Some 0) \<and>
   run [(\<lparr>StringMap.orig = Some 0\<rparr>, CallInsert ''a'' ''9''),
        (\<lparr>StringMap.orig = Some 0\<rparr>, CallUpsert ''c'' ''3''),
        (\<lparr>StringMap.orig = Some 0\<rparr>, CallUpdate ''b'' ''4''),
        (\<lparr>StringMap.orig = Some 0\<rparr>, CallDelete ''a''),
        (\<lparr>StringMap.orig = Some 0\<rparr>, CallSort)]
     \<lparr>akvs = [], skvs = [\<lparr>otlp_Key = ''a'', otlp_Value = ''1''\<rparr>, \<lparr>otlp_Key = ''b'', otlp_Value = ''2''\<rparr>],
      slices = [[Some 0, Some 1]], ils = []\<rparr> =
     Inr \<lparr>akvs = [], skvs = [\<lparr>otlp_Key = ''a'', otlp_Value = ''1''\<rparr>, \<lparr>otlp_Key = ''b'', otlp_Value = ''4''\<rparr>,
                            \<lparr>otlp_Key = ''c'', otlp_Value = ''3''\<rparr>],
          slices = [[Some 1, Some 2]], ils = []\<rparr> \<and>
   unique_keys
     \<lparr>akvs = [], skvs = [\<lparr>otlp_Key = ''a'', otlp_Value = ''1''\<rparr>, \<lparr>otlp_Key = ''b'', otlp_Value = ''4''\<rparr>,
                        \<lparr>otlp_Key = ''c'', otlp_Value = ''3''\<rparr>],
      slices = [[Some 1, Some 2]], ils = []\<rparr> \<lparr>StringMap.orig = Some 0\<rparr> \<and>
   keys
     \<lparr>akvs = [], skvs = [\<lparr>otlp_Key = ''a'', otlp_Value = ''1''\<rparr>, \<lparr>otlp_Key = ''b'', otlp_Value = ''4''\<rparr>,
                        \<lparr>otlp_Key = ''c'', otlp_Value = ''3''\<rparr>],
      slices = [[Some 1, Some 2]], ils = []\<rparr> \<lparr>StringMap.orig = Some 0\<rparr> = [''b'', ''c'']"
proof -
  let ?M = "\<lparr>StringMap.orig = Some 0\<rparr>"
  let ?S1 = "\<lparr>akvs = [], skvs = [\<lparr>otlp_Key = ''a'', otlp_Value = ''1''\<rparr>, \<lparr>otlp_Key = ''b'', otlp_Value = ''2''\<rparr>],
      slices = [[Some 0, Some 1]], ils = []\<rparr>"
  let ?S2 = "\<lparr>akvs = [], skvs = [\<lparr>otlp_Key = ''a'', otlp_Value = ''1''\<rparr>, \<lparr>otlp_Key = ''b'', otlp_Value = ''4''\<rparr>,
                        \<lparr>otlp_Key = ''c'', otlp_Value = ''3''\<rparr>],
      slices = [[Some 1, Some 2]], ils = []\<rparr>"
  let ?calls = "[(?M, CallInsert ''a'' ''9''), (?M, CallUpsert ''c'' ''3''),
      (?M, CallUpdate ''b'' ''4''), (?M, CallDelete ''a''), (?M, CallSort)]"
  have d: "distinct (map fst [(''a'', ''1''), (''b'', ''2'')])" by simp
  have n: "NewStringMap [(''a'', ''1''), (''b'', ''2'')] empty_store = Inr (?M, ?S1)"
    by (simp add: NewStringMap_def empty_store_def zero_StringKeyValue_def modify_def)
  have e: "\<forall>m \<in> {}. unique_keys empty_store m" by simp
  from unique_keys_invariant [OF e, where attrMap = "[(''a'', ''1''), (''b'', ''2'')]"] d n
  have u1: "\<forall>m \<in> {?M}. unique_keys ?S1 m" by simp
  have p: "valid_ptr (skvs ?S1) (Some 0)" by (simp add: valid_ptr_def)
  have r: "run ?calls ?S1 = Inr ?S2"
    by (simp add: Insert_def Update_def Upsert_def Delete_def Sort_def Get_def SetValue_def
        load_def modify_def append_new_def NewStringKeyValue_def)
  have c: "\<forall>(m, c) \<in> set ?calls. m \<in> {?M}" by simp
  from unique_keys_invariant [OF u1, where calls = ?calls] c r
  have u2: "unique_keys ?S2 ?M" by simp
  have k: "keys ?S2 ?M = [''b'', ''c'']"
    by (simp add: keys_def entries_def elems_def pair_at_def)
  show ?thesis using d n u1 p r u2 k by simp
qed

end
